theory Spec2Isabelle
  imports Main "HOL-Library.Word"
begin

section \<open>The enumerated field pointer registry of code\_saturne (cs\_field\_pointer.cpp)\<close>

text \<open>
  The file keeps three static variables (\<^verbatim>\<open>_n_pointers\<close>, \<^verbatim>\<open>_field_pointer\<close>,
  \<^verbatim>\<open>_sublist_size\<close>) and the global \<^verbatim>\<open>cs_glob_field_pointers\<close>. Every function
  of the file becomes a function from the state of these variables (and of the memory
  they own) to either an error or the next state.
  \<^item> A \<^verbatim>\<open>short int\<close> is a 16-bit word read as two's complement; an \<^verbatim>\<open>int\<close> is an
    integer, and the one addition of the file is checked against \<^verbatim>\<open>INT_MAX\<close>.
  \<^item> A value of the enumeration \<^verbatim>\<open>cs_field_pointer_id_t\<close> is a natural number.
  \<^item> A failed \<^verbatim>\<open>assert\<close>, a null or indeterminate pointer that is dereferenced, an
    access outside an array and a read of memory that was never written are errors: the
    call stops there.
  \<^item> The member \<^verbatim>\<open>p\<close> of a slot addresses the member \<^verbatim>\<open>f\<close> of a slot or a heap block,
    so that a store through \<^verbatim>\<open>p\<close> changes what it really addresses.
\<close>

subsection \<open>Values and memory\<close>

text \<open>A \<^verbatim>\<open>cs_field_t *\<close>: the registry never looks inside a field, so a field is a number.\<close>

datatype fptr = Nullptr | Fld nat

text \<open>
  A \<^verbatim>\<open>cs_field_t **\<close>, the member \<^verbatim>\<open>p\<close> of a slot: null, the address of the member
  \<^verbatim>\<open>f\<close> of slot \<open>j\<close> of the slot array, or the start of a heap block.
\<close>

datatype ptr = Null | AddrF nat | Block nat

text \<open>Memory returned by the allocator holds indeterminate values until it is written.\<close>

datatype 'a cell = Indet | Val 'a

text \<open>\<^verbatim>\<open>struct cs_field_pointer_array_t\<close> with its members \<^verbatim>\<open>f\<close> and \<^verbatim>\<open>p\<close>.\<close>

record slot =
  slot_f :: "fptr cell"
  slot_p :: "ptr cell"

text \<open>
  \<^verbatim>\<open>cs_glob_field_pointers\<close> is either null or an alias of the array that
  \<^verbatim>\<open>_field_pointer\<close> addresses.
\<close>

datatype array_ref = No_array | Field_pointer_array

datatype error =
    Assertion_failed
  | Null_deref
  | Out_of_bounds
  | Indeterminate_read
  | Invalid_free
  | Signed_overflow

text \<open>
  \<^verbatim>\<open>_sublist_size\<close> is an array of \<^verbatim>\<open>short int\<close>: 16-bit words read as two's
  complement. \<open>field_pointer = None\<close> is \<^verbatim>\<open>_field_pointer == nullptr\<close>; otherwise it
  holds the contents of the array. \<open>heap\<close> holds the live blocks of the sub-lists and
  \<open>brk\<close> is the next block the allocator hands out.
\<close>

record state =
  n_pointers :: int
  field_pointer :: "slot list option"
  sublist_size :: "16 word cell list option"
  cs_glob_field_pointers :: array_ref
  heap :: "nat \<Rightarrow> fptr cell list option"
  brk :: nat

definition initial_state :: state where
  "initial_state =
     \<lparr>n_pointers = 0, field_pointer = None, sublist_size = None,
      cs_glob_field_pointers = No_array, heap = (\<lambda>b. None), brk = 0\<rparr>"

definition INT_MAX :: int where
  "INT_MAX = 2147483647"

definition ebind :: "error + 'a \<Rightarrow> ('a \<Rightarrow> error + 'b) \<Rightarrow> error + 'b" where
  "ebind m k = (case m of Inl err \<Rightarrow> Inl err | Inr x \<Rightarrow> k x)"

subsection \<open>Reading and writing the arrays\<close>

text \<open>\<^verbatim>\<open>_sublist_size[e]\<close> as an rvalue, promoted to \<^verbatim>\<open>int\<close>.\<close>

definition read_size :: "state \<Rightarrow> nat \<Rightarrow> error + int" where
  "read_size s e =
     (case sublist_size s of
        None \<Rightarrow> Inl Null_deref
      | Some a \<Rightarrow>
          if e < length a
          then (case a ! e of Indet \<Rightarrow> Inl Indeterminate_read | Val w \<Rightarrow> Inr (sint w))
          else Inl Out_of_bounds)"

text \<open>\<^verbatim>\<open>_sublist_size[e] = n\<close>: the \<^verbatim>\<open>int\<close> is converted to \<^verbatim>\<open>short int\<close> (modulo \<open>2^16\<close>).\<close>

definition write_size :: "state \<Rightarrow> nat \<Rightarrow> int \<Rightarrow> error + state" where
  "write_size s e n =
     (case sublist_size s of
        None \<Rightarrow> Inl Null_deref
      | Some a \<Rightarrow>
          if e < length a
          then Inr (s\<lparr>sublist_size := Some (a[e := Val (word_of_int n)])\<rparr>)
          else Inl Out_of_bounds)"

definition read_f :: "state \<Rightarrow> nat \<Rightarrow> error + fptr" where
  "read_f s e =
     (case field_pointer s of
        None \<Rightarrow> Inl Null_deref
      | Some a \<Rightarrow>
          if e < length a
          then (case slot_f (a ! e) of Indet \<Rightarrow> Inl Indeterminate_read | Val v \<Rightarrow> Inr v)
          else Inl Out_of_bounds)"

definition write_f :: "state \<Rightarrow> nat \<Rightarrow> fptr \<Rightarrow> error + state" where
  "write_f s e v =
     (case field_pointer s of
        None \<Rightarrow> Inl Null_deref
      | Some a \<Rightarrow>
          if e < length a
          then Inr (s\<lparr>field_pointer := Some (a[e := (a ! e)\<lparr>slot_f := Val v\<rparr>])\<rparr>)
          else Inl Out_of_bounds)"

definition read_p :: "state \<Rightarrow> nat \<Rightarrow> error + ptr" where
  "read_p s e =
     (case field_pointer s of
        None \<Rightarrow> Inl Null_deref
      | Some a \<Rightarrow>
          if e < length a
          then (case slot_p (a ! e) of Indet \<Rightarrow> Inl Indeterminate_read | Val q \<Rightarrow> Inr q)
          else Inl Out_of_bounds)"

definition write_p :: "state \<Rightarrow> nat \<Rightarrow> ptr \<Rightarrow> error + state" where
  "write_p s e q =
     (case field_pointer s of
        None \<Rightarrow> Inl Null_deref
      | Some a \<Rightarrow>
          if e < length a
          then Inr (s\<lparr>field_pointer := Some (a[e := (a ! e)\<lparr>slot_p := Val q\<rparr>])\<rparr>)
          else Inl Out_of_bounds)"

text \<open>
  \<^verbatim>\<open>_field_pointer[e].p[i] = v\<close>. When \<^verbatim>\<open>p\<close> addresses a member \<^verbatim>\<open>f\<close>, only
  \<^verbatim>\<open>p[0]\<close> is an object, and it is that member; in a heap block the index has to be
  inside the block.
\<close>

definition store_p :: "state \<Rightarrow> nat \<Rightarrow> int \<Rightarrow> fptr \<Rightarrow> error + state" where
  "store_p s e i v =
     ebind (read_p s e) (\<lambda>q.
       case q of
         Null \<Rightarrow> Inl Null_deref
       | AddrF j \<Rightarrow> if i = 0 then write_f s j v else Inl Out_of_bounds
       | Block b \<Rightarrow>
           (case heap s b of
              None \<Rightarrow> Inl Out_of_bounds
            | Some blk \<Rightarrow>
                if 0 \<le> i \<and> i < int (length blk)
                then Inr (s\<lparr>heap := (heap s)(b \<mapsto> blk[nat i := Val v])\<rparr>)
                else Inl Out_of_bounds))"

text \<open>\<^verbatim>\<open>_field_pointer[e].p[i]\<close> as an rvalue.\<close>

definition load_p :: "state \<Rightarrow> nat \<Rightarrow> int \<Rightarrow> error + fptr" where
  "load_p s e i =
     ebind (read_p s e) (\<lambda>q.
       case q of
         Null \<Rightarrow> Inl Null_deref
       | AddrF j \<Rightarrow> if i = 0 then read_f s j else Inl Out_of_bounds
       | Block b \<Rightarrow>
           (case heap s b of
              None \<Rightarrow> Inl Out_of_bounds
            | Some blk \<Rightarrow>
                if 0 \<le> i \<and> i < int (length blk)
                then (case blk ! nat i of Indet \<Rightarrow> Inl Indeterminate_read | Val v \<Rightarrow> Inr v)
                else Inl Out_of_bounds))"

subsection \<open>The allocator\<close>

text \<open>
  Modelled from the spec: the macros \<^verbatim>\<open>CS_MALLOC\<close>, \<^verbatim>\<open>CS_REALLOC\<close> and \<^verbatim>\<open>CS_FREE\<close>
  of \<^verbatim>\<open>base/cs_mem.h\<close>, which the spec names as opaque services (allocate, reallocate,
  free) whose failure aborts the process. An allocation that returns gives a block of
  \<open>n\<close> indeterminate elements; a reallocation keeps the elements below both the old and
  the new size; freeing releases the block, and the macro sets the freed pointer to null.
  A reallocation may move the block: nothing else addresses it, so the model keeps its
  name.
\<close>

definition cs_malloc_block :: "int \<Rightarrow> state \<Rightarrow> ptr \<times> state" where
  "cs_malloc_block n s =
     (Block (brk s),
      s\<lparr>heap := (heap s)(brk s \<mapsto> replicate (nat n) Indet), brk := Suc (brk s)\<rparr>)"

definition cs_realloc_block :: "ptr \<Rightarrow> int \<Rightarrow> state \<Rightarrow> error + ptr \<times> state" where
  "cs_realloc_block q n s =
     (case q of
        Null \<Rightarrow> Inr (cs_malloc_block n s)
      | AddrF j \<Rightarrow> Inl Invalid_free
      | Block b \<Rightarrow>
          (case heap s b of
             None \<Rightarrow> Inl Invalid_free
           | Some blk \<Rightarrow>
               Inr (Block b,
                    s\<lparr>heap := (heap s)(b \<mapsto>
                         take (nat n) blk @ replicate (nat n - length blk) Indet)\<rparr>)))"

definition cs_free_block :: "ptr \<Rightarrow> state \<Rightarrow> error + state" where
  "cs_free_block q s =
     (case q of
        Null \<Rightarrow> Inr s
      | AddrF j \<Rightarrow> Inl Invalid_free
      | Block b \<Rightarrow>
          (case heap s b of
             None \<Rightarrow> Inl Invalid_free
           | Some blk \<Rightarrow> Inr (s\<lparr>heap := (heap s)(b := None)\<rparr>)))"

subsection \<open>Initialisation and teardown\<close>

text \<open>
  The body of the loop of \<^verbatim>\<open>_init_pointers\<close>:
  \<^verbatim>\<open>_field_pointer[i].f = nullptr; _field_pointer[i].p = &(_field_pointer[i].f);
  _sublist_size[i] = 0;\<close>
\<close>

definition init_slot :: "nat \<Rightarrow> state \<Rightarrow> error + state" where
  "init_slot i s =
     ebind (write_f s i Nullptr) (\<lambda>s1.
     ebind (write_p s1 i (AddrF i)) (\<lambda>s2.
     write_size s2 i 0))"

text \<open>\<^verbatim>\<open>for (int i = 0; i < _n_pointers; i++)\<close>, entered with the counter at \<open>i\<close>.\<close>

function init_loop :: "nat \<Rightarrow> state \<Rightarrow> error + state" where
  "init_loop i s =
     (if int i < n_pointers s
      then (case init_slot i s of Inl err \<Rightarrow> Inl err | Inr s' \<Rightarrow> init_loop (Suc i) s')
      else Inr s)"
  by pat_completeness auto
termination
  by (relation "measure (\<lambda>(i, s). nat (n_pointers s - int i))")
     (auto simp: init_slot_def ebind_def write_f_def write_p_def write_size_def
        split: sum.splits option.splits if_splits)

text \<open>
  \<^verbatim>\<open>_init_pointers\<close>. \<open>N\<close> is the enumerator \<^verbatim>\<open>CS_FIELD_N_POINTERS\<close> of
  \<^verbatim>\<open>base/cs_field_pointer.h\<close>, the number of enumerators before it.
\<close>

definition init_pointers :: "nat \<Rightarrow> state \<Rightarrow> error + state" where
  "init_pointers N s =
     (if field_pointer s \<noteq> None then Inl Assertion_failed
      else
        let s1 = s\<lparr>n_pointers := int N\<rparr>;
            s2 = s1\<lparr>field_pointer :=
                     Some (replicate (nat (n_pointers s1)) \<lparr>slot_f = Indet, slot_p = Indet\<rparr>)\<rparr>;
            s3 = s2\<lparr>sublist_size := Some (replicate (nat (n_pointers s2)) Indet)\<rparr>
        in ebind (init_loop 0 s3) (\<lambda>s4.
             Inr (s4\<lparr>cs_glob_field_pointers := Field_pointer_array\<rparr>)))"

definition cs_field_pointer_ensure_init :: "nat \<Rightarrow> state \<Rightarrow> error + state" where
  "cs_field_pointer_ensure_init N s =
     (if field_pointer s = None then init_pointers N s else Inr s)"

text \<open>\<^verbatim>\<open>CS_FREE(_field_pointer[i].p)\<close>: free the block and set the member to null.\<close>

definition free_p :: "nat \<Rightarrow> state \<Rightarrow> error + state" where
  "free_p i s =
     ebind (read_p s i) (\<lambda>q.
     ebind (cs_free_block q s) (\<lambda>s1.
     write_p s1 i Null))"

definition destroy_slot :: "nat \<Rightarrow> state \<Rightarrow> error + state" where
  "destroy_slot i s =
     ebind (read_size s i) (\<lambda>sz. if sz > 1 then free_p i s else Inr s)"

text \<open>\<^verbatim>\<open>for (int i = 0; i < _n_pointers; i++)\<close> of the teardown, entered with the counter at \<open>i\<close>.\<close>

function destroy_loop :: "nat \<Rightarrow> state \<Rightarrow> error + state" where
  "destroy_loop i s =
     (if int i < n_pointers s
      then (case destroy_slot i s of Inl err \<Rightarrow> Inl err | Inr s' \<Rightarrow> destroy_loop (Suc i) s')
      else Inr s)"
  by pat_completeness auto
termination
  by (relation "measure (\<lambda>(i, s). nat (n_pointers s - int i))")
     (auto simp: destroy_slot_def free_p_def ebind_def read_size_def read_p_def
        cs_free_block_def write_p_def
        split: sum.splits option.splits if_splits cell.splits ptr.splits)

text \<open>
  \<^verbatim>\<open>cs_field_pointer_destroy_all\<close>. The two arrays are freed (freeing a null pointer
  does nothing) and \<^verbatim>\<open>CS_FREE\<close> sets both pointers to null; \<^verbatim>\<open>_n_pointers\<close> keeps its
  value.
\<close>

definition cs_field_pointer_destroy_all :: "state \<Rightarrow> error + state" where
  "cs_field_pointer_destroy_all s =
     ebind (destroy_loop 0 s) (\<lambda>s1.
       Inr (s1\<lparr>field_pointer := None, sublist_size := None,
               cs_glob_field_pointers := No_array\<rparr>))"

subsection \<open>Mapping\<close>

text \<open>
  \<^verbatim>\<open>for (int i = _sublist_size[e]; i < n_sub; i++) _field_pointer[e].p[i] = nullptr;\<close>
  entered with the counter at \<open>i\<close>.
\<close>

function null_loop :: "nat \<Rightarrow> int \<Rightarrow> int \<Rightarrow> state \<Rightarrow> error + state" where
  "null_loop e i n_sub s =
     (if i < n_sub
      then (case store_p s e i Nullptr of
              Inl err \<Rightarrow> Inl err
            | Inr s' \<Rightarrow> null_loop e (i + 1) n_sub s')
      else Inr s)"
  by pat_completeness auto
termination
  by (relation "measure (\<lambda>(e, i, n_sub, s). nat (n_sub - i))") auto

text \<open>
  The block under \<^verbatim>\<open>if (_sublist_size[e] <= index)\<close>. \<^verbatim>\<open>index + 1\<close> is computed in
  \<^verbatim>\<open>int\<close>, where overflow is undefined; the macros assign the pointer they return to
  \<^verbatim>\<open>_field_pointer[e].p\<close>.
\<close>

definition grow_sublist :: "nat \<Rightarrow> int \<Rightarrow> state \<Rightarrow> error + state" where
  "grow_sublist e index s =
     (if INT_MAX < index + 1 then Inl Signed_overflow
      else
        let n_sub = index + 1 in
        ebind (read_p s e) (\<lambda>q.
        ebind (if q = AddrF e
               then (case cs_malloc_block n_sub s of (q', s') \<Rightarrow> write_p s' e q')
               else ebind (cs_realloc_block q n_sub s) (\<lambda>(q', s'). write_p s' e q')) (\<lambda>s1.
        ebind (read_f s1 e) (\<lambda>v.
        ebind (store_p s1 e 0 v) (\<lambda>s2.
        ebind (read_size s2 e) (\<lambda>sz.
        ebind (null_loop e sz n_sub s2) (\<lambda>s3.
        write_size s3 e n_sub)))))))"

text \<open>
  \<^verbatim>\<open>cs_field_pointer_map_indexed\<close>. The enumerator \<open>e\<close> is a value of the enumeration
  \<^verbatim>\<open>cs_field_pointer_id_t\<close>, whose values are not negative; \<open>index\<close> is a C \<^verbatim>\<open>int\<close>.
  A failed \<^verbatim>\<open>assert\<close> aborts. \<open>N\<close> is \<^verbatim>\<open>CS_FIELD_N_POINTERS\<close>, which the initialisation
  on first use needs.
\<close>

definition cs_field_pointer_map_indexed ::
  "nat \<Rightarrow> nat \<Rightarrow> int \<Rightarrow> fptr \<Rightarrow> state \<Rightarrow> error + state" where
  "cs_field_pointer_map_indexed N e index fp s0 =
     (if \<not> 0 \<le> index then Inl Assertion_failed
      else
        ebind (if field_pointer s0 = None then init_pointers N s0 else Inr s0) (\<lambda>s.
        if \<not> int e < n_pointers s then Inl Assertion_failed
        else
          ebind (read_size s e) (\<lambda>sz.
          if index = 0 \<and> sz \<le> 1
          then ebind (write_f s e fp) (\<lambda>s1. write_size s1 e 1)
          else
            ebind (if sz \<le> index then grow_sublist e index s else Inr s) (\<lambda>s1.
            store_p s1 e index fp))))"

definition cs_field_pointer_map :: "nat \<Rightarrow> nat \<Rightarrow> fptr \<Rightarrow> state \<Rightarrow> error + state" where
  "cs_field_pointer_map N e fp s = cs_field_pointer_map_indexed N e 0 fp s"

subsection \<open>Lookup\<close>

text \<open>
  Modelled from the spec: the macros \<^verbatim>\<open>CS_F_(e)\<close> and \<^verbatim>\<open>CS_FI_(e, i)\<close> of
  \<^verbatim>\<open>base/cs_field_pointer.h\<close>. The file documents them as accesses to the global array
  \<^verbatim>\<open>cs_glob_field_pointers\<close> by the enumerator, and by the enumerator and the sub-list
  index; the spec's lookup of a slot at a sub-index is the second one, the read of
  \<^verbatim>\<open>cs_glob_field_pointers[e].p[i]\<close>, and the first one reads the member \<^verbatim>\<open>f\<close>.
\<close>

definition CS_F :: "state \<Rightarrow> nat \<Rightarrow> error + fptr" where
  "CS_F s e =
     (case cs_glob_field_pointers s of
        No_array \<Rightarrow> Inl Null_deref
      | Field_pointer_array \<Rightarrow> read_f s e)"

definition CS_FI :: "state \<Rightarrow> nat \<Rightarrow> int \<Rightarrow> error + fptr" where
  "CS_FI s e i =
     (case cs_glob_field_pointers s of
        No_array \<Rightarrow> Inl Null_deref
      | Field_pointer_array \<Rightarrow> load_p s e i)"

subsection \<open>Sequences of calls\<close>

datatype op =
    Ensure_init
  | Destroy_all
  | Map nat fptr
  | Map_indexed nat int fptr

fun exec_op :: "nat \<Rightarrow> op \<Rightarrow> state \<Rightarrow> error + state" where
  "exec_op N Ensure_init s = cs_field_pointer_ensure_init N s"
| "exec_op N Destroy_all s = cs_field_pointer_destroy_all s"
| "exec_op N (Map e fp) s = cs_field_pointer_map N e fp s"
| "exec_op N (Map_indexed e index fp) s = cs_field_pointer_map_indexed N e index fp s"

fun run :: "nat \<Rightarrow> op list \<Rightarrow> state \<Rightarrow> error + state" where
  "run N [] s = Inr s"
| "run N (x # xs) s =
     (case exec_op N x s of Inl err \<Rightarrow> Inl err | Inr s' \<Rightarrow> run N xs s')"

section \<open>Vocabulary of the statements\<close>

subsection \<open>States\<close>

text \<open>Slot \<open>i\<close> as \<^verbatim>\<open>_init_pointers\<close> leaves it: \<^verbatim>\<open>f\<close> null, \<^verbatim>\<open>p\<close> the address of \<^verbatim>\<open>f\<close>.\<close>

definition fresh_slot :: "nat \<Rightarrow> slot" where
  "fresh_slot i = \<lparr>slot_f = Val Nullptr, slot_p = Val (AddrF i)\<rparr>"

text \<open>The registry as \<^verbatim>\<open>_init_pointers\<close> leaves it; the heap is not touched.\<close>

definition fresh_registry :: "nat \<Rightarrow> state \<Rightarrow> state" where
  "fresh_registry N s =
     s\<lparr>n_pointers := int N,
       field_pointer := Some (map fresh_slot [0..<N]),
       sublist_size := Some (replicate N (Val 0)),
       cs_glob_field_pointers := Field_pointer_array\<rparr>"

text \<open>Slot \<open>e\<close> is expanded: \<^verbatim>\<open>_sublist_size[e] > 1\<close>.\<close>

definition expanded :: "state \<Rightarrow> nat \<Rightarrow> bool" where
  "expanded s e = (case read_size s e of Inl err \<Rightarrow> False | Inr w \<Rightarrow> 1 < w)"

text \<open>
  The block of \<open>n\<close> elements that a reallocation makes of \<open>blk\<close>, and the block that the
  growth makes of a block \<open>B\<close> of \<open>index + 1\<close> elements before it stores the new field:
  \<^verbatim>\<open>f\<close> at position 0, then null from the old size \<open>sz\<close> on.
\<close>

definition realloc_cells :: "fptr cell list \<Rightarrow> int \<Rightarrow> fptr cell list" where
  "realloc_cells blk n = take (nat n) blk @ replicate (nat n - length blk) Indet"

definition grown_block :: "fptr cell list \<Rightarrow> fptr \<Rightarrow> int \<Rightarrow> int \<Rightarrow> fptr cell list" where
  "grown_block B v sz index =
     take (nat sz) (B[0 := Val v]) @ replicate (nat (index + 1 - sz)) (Val Nullptr)"

subsection \<open>Calls\<close>

definition SHRT_MAX :: int where
  "SHRT_MAX = 32767"

text \<open>A call whose \<^verbatim>\<open>index + 1\<close> is at most \<^verbatim>\<open>SHRT_MAX\<close>.\<close>

fun small_index :: "op \<Rightarrow> bool" where
  "small_index (Map_indexed e index fp) = (index < SHRT_MAX)"
| "small_index x = True"

text \<open>A call other than \<^verbatim>\<open>cs_field_pointer_destroy_all\<close>.\<close>

fun no_destroy :: "op \<Rightarrow> bool" where
  "no_destroy Destroy_all = False"
| "no_destroy x = True"

text \<open>
  The value of \<^verbatim>\<open>_sublist_size[e]\<close>, of the members \<^verbatim>\<open>f\<close> and \<^verbatim>\<open>p\<close> of slot \<open>e\<close>,
  of \<^verbatim>\<open>_field_pointer[e].p[i]\<close> and of the lookup \<^verbatim>\<open>CS_FI_(e, i)\<close>, after the calls
  \<open>ops\<close> made from the state at program start.
\<close>

definition size_after :: "nat \<Rightarrow> op list \<Rightarrow> nat \<Rightarrow> error + int" where
  "size_after N ops e = ebind (run N ops initial_state) (\<lambda>s. read_size s e)"

definition f_after :: "nat \<Rightarrow> op list \<Rightarrow> nat \<Rightarrow> error + fptr" where
  "f_after N ops e = ebind (run N ops initial_state) (\<lambda>s. read_f s e)"

definition p_after :: "nat \<Rightarrow> op list \<Rightarrow> nat \<Rightarrow> error + ptr" where
  "p_after N ops e = ebind (run N ops initial_state) (\<lambda>s. read_p s e)"

definition load_after :: "nat \<Rightarrow> op list \<Rightarrow> nat \<Rightarrow> int \<Rightarrow> error + fptr" where
  "load_after N ops e i = ebind (run N ops initial_state) (\<lambda>s. load_p s e i)"

definition lookup_after :: "nat \<Rightarrow> op list \<Rightarrow> nat \<Rightarrow> int \<Rightarrow> error + fptr" where
  "lookup_after N ops e i = ebind (run N ops initial_state) (\<lambda>s. CS_FI s e i)"

subsection \<open>Invariants\<close>

text \<open>
  What every initialised state that the calls reach has, whatever the indices were. Both
  members of slot \<open>i\<close> are written, and \<^verbatim>\<open>p\<close> addresses either the slot's own \<^verbatim>\<open>f\<close>,
  with a size of at most 1, or a live block that is not empty and has at least as many
  elements as the size says. No two slots address the same block.
\<close>

definition wf_slot :: "state \<Rightarrow> slot list \<Rightarrow> 16 word cell list \<Rightarrow> nat \<Rightarrow> bool" where
  "wf_slot s a z i \<longleftrightarrow>
     (\<exists>v q w. a ! i = \<lparr>slot_f = Val v, slot_p = Val q\<rparr> \<and> z ! i = Val w \<and>
        (q = AddrF i \<and> sint w \<le> 1 \<or>
         (\<exists>b blk. q = Block b \<and> b < brk s \<and> heap s b = Some blk \<and>
            blk \<noteq> [] \<and> sint w \<le> int (length blk))))"

definition winv :: "nat \<Rightarrow> state \<Rightarrow> bool" where
  "winv N s \<longleftrightarrow>
     n_pointers s = int N \<and> cs_glob_field_pointers s = Field_pointer_array \<and>
     (\<exists>a z. field_pointer s = Some a \<and> sublist_size s = Some z \<and>
        length a = N \<and> length z = N \<and> (\<forall>i<N. wf_slot s a z i) \<and>
        distinct (map slot_p a))"

text \<open>
  What the states have in addition when every index was below \<^verbatim>\<open>SHRT_MAX\<close>: the size of
  slot \<open>i\<close> tells its representation. It is at most 1 and \<^verbatim>\<open>p\<close> addresses the slot's own
  \<^verbatim>\<open>f\<close>, or it is above 1 and \<^verbatim>\<open>p\<close> addresses a block of exactly that many elements.
\<close>

definition tagged :: "state \<Rightarrow> slot list \<Rightarrow> 16 word cell list \<Rightarrow> nat \<Rightarrow> bool" where
  "tagged s a z i \<longleftrightarrow>
     (\<exists>q w. slot_p (a ! i) = Val q \<and> z ! i = Val w \<and> 0 \<le> sint w \<and>
        (q = AddrF i \<and> sint w \<le> 1 \<or>
         (\<exists>b blk. q = Block b \<and> heap s b = Some blk \<and> 1 < sint w \<and>
            int (length blk) = sint w)))"

definition sinv :: "nat \<Rightarrow> state \<Rightarrow> bool" where
  "sinv N s \<longleftrightarrow>
     winv N s \<and>
     (\<exists>a z. field_pointer s = Some a \<and> sublist_size s = Some z \<and> (\<forall>i<N. tagged s a z i))"

text \<open>
  What the loop of \<^verbatim>\<open>cs_field_pointer_destroy_all\<close> needs of the slots it has not
  visited yet: a slot with a size above 1 addresses a live block, and no two of them
  address the same block.
\<close>

definition destroy_ready :: "nat \<Rightarrow> nat \<Rightarrow> state \<Rightarrow> bool" where
  "destroy_ready N i s \<longleftrightarrow>
     n_pointers s = int N \<and>
     (\<exists>a z. field_pointer s = Some a \<and> sublist_size s = Some z \<and>
        length a = N \<and> length z = N \<and>
        (\<forall>j. i \<le> j \<and> j < N \<longrightarrow>
           (\<exists>q w. slot_p (a ! j) = Val q \<and> z ! j = Val w \<and>
              (1 < sint w \<longrightarrow> (\<exists>b blk. q = Block b \<and> heap s b = Some blk)))) \<and>
        (\<forall>j k. i \<le> j \<and> j < k \<and> k < N \<longrightarrow> slot_p (a ! j) \<noteq> slot_p (a ! k)))"

section \<open>What the calls compute\<close>

subsection \<open>Initialisation\<close>

text \<open>The loops are unfolded by hand, one iteration at a time.\<close>

declare init_loop.simps [simp del] destroy_loop.simps [simp del] null_loop.simps [simp del]

lemma slot_upd_all: "r\<lparr>slot_f := x, slot_p := y\<rparr> = \<lparr>slot_f = x, slot_p = y\<rparr>"
  by (cases r) simp

lemma init_slot_eq:
  assumes "field_pointer s = Some a" "sublist_size s = Some z" "i < length a" "i < length z"
  shows "init_slot i s =
    Inr (s\<lparr>field_pointer := Some (a[i := fresh_slot i]),
           sublist_size := Some (z[i := Val 0])\<rparr>)"
  using assms
  by (simp add: init_slot_def ebind_def write_f_def write_p_def write_size_def fresh_slot_def slot_upd_all)

lemma init_loop_eq:
  assumes "field_pointer s = Some a" "sublist_size s = Some z"
    "length a = n" "length z = n" "n_pointers s = int n" "i \<le> n"
  shows "init_loop i s =
    Inr (s\<lparr>field_pointer := Some (take i a @ map fresh_slot [i..<n]),
           sublist_size := Some (take i z @ replicate (n - i) (Val 0))\<rparr>)"
  using assms
proof (induction "n - i" arbitrary: i s a z)
  case 0
  then have "i = n" by simp
  with 0 show ?case by (cases s) (simp add: init_loop.simps)
next
  case (Suc k)
  then have lt: "i < n" by simp
  let ?s' = "s\<lparr>field_pointer := Some (a[i := fresh_slot i]),
           sublist_size := Some (z[i := Val 0])\<rparr>"
  have step: "init_slot i s = Inr ?s'"
    using Suc.prems lt by (simp add: init_slot_eq)
  have IH: "init_loop (Suc i) ?s' =
    Inr (?s'\<lparr>field_pointer := Some (take (Suc i) (a[i := fresh_slot i]) @ map fresh_slot [Suc i..<n]),
           sublist_size := Some (take (Suc i) (z[i := Val 0]) @ replicate (n - Suc i) (Val 0))\<rparr>)"
    using Suc.hyps(2) Suc.prems lt by (intro Suc.hyps(1)) auto
  have t1: "take (Suc i) (a[i := fresh_slot i]) @ map fresh_slot [Suc i..<n]
      = take i a @ map fresh_slot [i..<n]"
    using lt Suc.prems(3) by (simp add: take_Suc_conv_app_nth upt_conv_Cons)
  have t2: "take (Suc i) (z[i := Val 0]) @ replicate (n - Suc i) (Val 0)
      = take i z @ replicate (n - i) (Val (0::16 word))"
  proof -
    from lt have "n - i = Suc (n - Suc i)" by simp
    then show ?thesis
      using lt Suc.prems(4) by (simp add: take_Suc_conv_app_nth)
  qed
  show ?case
    using lt Suc.prems(5) step IH
    by (subst init_loop.simps) (simp add: t1 t2)
qed

lemma init_pointers_eq:
  assumes "field_pointer s = None"
  shows "init_pointers N s =
    Inr (s\<lparr>n_pointers := int N,
           field_pointer := Some (map fresh_slot [0..<N]),
           sublist_size := Some (replicate N (Val 0)),
           cs_glob_field_pointers := Field_pointer_array\<rparr>)"
proof -
  let ?s3 = "s\<lparr>n_pointers := int N,
      field_pointer := Some (replicate N \<lparr>slot_f = Indet, slot_p = Indet\<rparr>),
      sublist_size := Some (replicate N Indet)\<rparr>"
  have "init_loop 0 ?s3 =
    Inr (?s3\<lparr>field_pointer := Some (take 0 (replicate N \<lparr>slot_f = Indet, slot_p = Indet\<rparr>) @ map fresh_slot [0..<N]),
           sublist_size := Some (take 0 (replicate N Indet) @ replicate (N - 0) (Val 0))\<rparr>)"
    by (rule init_loop_eq) simp_all
  then show ?thesis
    using assms by (simp add: init_pointers_def ebind_def Let_def)
qed

subsection \<open>The loop that writes null\<close>

lemma store_p_block:
  assumes "read_p s e = Inr (Block b)" "heap s b = Some blk" "0 \<le> i" "i < int (length blk)"
  shows "store_p s e i v = Inr (s\<lparr>heap := (heap s)(b \<mapsto> blk[nat i := Val v])\<rparr>)"
  using assms by (simp add: store_p_def ebind_def)

lemma store_p_block_out:
  assumes "read_p s e = Inr (Block b)" "heap s b = Some blk" "i < 0 \<or> int (length blk) \<le> i"
  shows "store_p s e i v = Inl Out_of_bounds"
  using assms by (auto simp add: store_p_def ebind_def)

lemma read_p_heap_upd [simp]: "read_p (s\<lparr>heap := h\<rparr>) e = read_p s e"
  by (simp add: read_p_def)

lemma null_fill_step:
  assumes "k < n" "n \<le> length blk"
  shows "take (Suc k) (blk[k := x]) @ replicate (n - Suc k) x @ drop n (blk[k := x])
       = take k blk @ replicate (n - k) x @ drop n blk"
proof -
  from assms have "n - k = Suc (n - Suc k)" by simp
  then show ?thesis
    using assms by (simp add: take_Suc_conv_app_nth)
qed

lemma null_loop_block:
  assumes "read_p s e = Inr (Block b)" "heap s b = Some blk"
    "0 \<le> i" "i \<le> n" "n \<le> int (length blk)"
  shows "null_loop e i n s =
    Inr (s\<lparr>heap := (heap s)(b \<mapsto>
      take (nat i) blk @ replicate (nat (n - i)) (Val Nullptr) @ drop (nat n) blk)\<rparr>)"
  using assms
proof (induction "nat (n - i)" arbitrary: i s blk)
  case 0
  then have "i = n" by simp
  with 0 have "(heap s)(b \<mapsto> take (nat i) blk @ replicate (nat (n - i)) (Val Nullptr) @ drop (nat n) blk) = heap s"
    by (simp add: fun_upd_idem)
  with \<open>i = n\<close> show ?case by (simp add: null_loop.simps)
next
  case (Suc k)
  then have lt: "i < n" by linarith
  let ?s' = "s\<lparr>heap := (heap s)(b \<mapsto> blk[nat i := Val Nullptr])\<rparr>"
  have step: "store_p s e i Nullptr = Inr ?s'"
    using Suc.prems lt by (intro store_p_block) auto
  have IH: "null_loop e (i + 1) n ?s' =
    Inr (?s'\<lparr>heap := (heap ?s')(b \<mapsto>
      take (nat (i + 1)) (blk[nat i := Val Nullptr]) @ replicate (nat (n - (i + 1))) (Val Nullptr)
        @ drop (nat n) (blk[nat i := Val Nullptr]))\<rparr>)"
    using Suc.hyps(2) Suc.prems lt by (intro Suc.hyps(1)) auto
  have idx: "nat (i + 1) = Suc (nat i)" "nat (n - (i + 1)) = nat n - Suc (nat i)"
    "nat (n - i) = nat n - nat i"
    using Suc.prems(3) lt by linarith+
  have "take (Suc (nat i)) (blk[nat i := Val Nullptr]) @ replicate (nat n - Suc (nat i)) (Val Nullptr)
        @ drop (nat n) (blk[nat i := Val Nullptr])
      = take (nat i) blk @ replicate (nat n - nat i) (Val Nullptr) @ drop (nat n) blk"
    using Suc.prems lt by (intro null_fill_step) linarith+
  then show ?case
    using lt step IH by (subst null_loop.simps) (simp add: idx)
qed

lemma null_loop_negative:
  assumes "read_p s e = Inr (Block b)" "heap s b = Some blk" "i < 0" "i < n"
  shows "null_loop e i n s = Inl Out_of_bounds"
  using assms by (subst null_loop.simps) (simp add: store_p_block_out)

subsection \<open>Growth of a sub-list\<close>

lemma length_realloc_cells [simp]: "length (realloc_cells blk n) = nat n"
  by (simp add: realloc_cells_def)

lemma length_grown_block:
  "0 \<le> sz \<Longrightarrow> sz \<le> index \<Longrightarrow> length B = nat (index + 1) \<Longrightarrow>
   length (grown_block B v sz index) = nat (index + 1)"
  by (simp add: grown_block_def)

lemma grow_tail:
  assumes "read_f s1 e = Inr v" "read_p s1 e = Inr (Block b)" "heap s1 b = Some B"
    "length B = nat (index + 1)" "sublist_size s1 = Some z" "e < length z" "z ! e = Val w"
    "0 \<le> sint w" "sint w \<le> index"
  shows "ebind (read_f s1 e) (\<lambda>v.
        ebind (store_p s1 e 0 v) (\<lambda>s2.
        ebind (read_size s2 e) (\<lambda>sz.
        ebind (null_loop e sz (index + 1) s2) (\<lambda>s3.
        write_size s3 e (index + 1))))) =
     Inr (s1\<lparr>sublist_size := Some (z[e := Val (word_of_int (index + 1))]),
             heap := (heap s1)(b \<mapsto> grown_block B v (sint w) index)\<rparr>)"
proof -
  have pos: "0 \<le> index" using assms by linarith
  let ?s2 = "s1\<lparr>heap := (heap s1)(b \<mapsto> B[nat 0 := Val v])\<rparr>"
  have st: "store_p s1 e 0 v = Inr ?s2"
    using assms pos by (intro store_p_block) auto
  have rs: "read_size ?s2 e = Inr (sint w)"
    using assms by (simp add: read_size_def)
  let ?s3 = "?s2\<lparr>heap := (heap ?s2)(b \<mapsto>
      take (nat (sint w)) (B[nat 0 := Val v]) @ replicate (nat (index + 1 - sint w)) (Val Nullptr)
        @ drop (nat (index + 1)) (B[nat 0 := Val v]))\<rparr>"
  have nl: "null_loop e (sint w) (index + 1) ?s2 = Inr ?s3"
    using assms pos by (intro null_loop_block) auto
  have ws: "write_size ?s3 e (index + 1) =
      Inr (?s3\<lparr>sublist_size := Some (z[e := Val (word_of_int (index + 1))])\<rparr>)"
    using assms by (simp add: write_size_def)
  show ?thesis
    using assms(1) assms(4) st rs nl ws
    by (simp add: ebind_def grown_block_def)
qed

lemma grow_sublist_inline:
  assumes "field_pointer s = Some a" "sublist_size s = Some z" "e < length a" "e < length z"
    "a ! e = \<lparr>slot_f = Val v, slot_p = Val (AddrF e)\<rparr>" "z ! e = Val w"
    "0 \<le> sint w" "sint w \<le> index" "index < INT_MAX"
  shows "grow_sublist e index s =
    Inr (s\<lparr>field_pointer := Some (a[e := \<lparr>slot_f = Val v, slot_p = Val (Block (brk s))\<rparr>]),
           sublist_size := Some (z[e := Val (word_of_int (index + 1))]),
           heap := (heap s)(brk s \<mapsto>
              grown_block (replicate (nat (index + 1)) Indet) v (sint w) index),
           brk := Suc (brk s)\<rparr>)"
proof -
  let ?B = "replicate (nat (index + 1)) (Indet :: fptr cell)"
  let ?s1 = "s\<lparr>heap := (heap s)(brk s \<mapsto> ?B), brk := Suc (brk s),
      field_pointer := Some (a[e := \<lparr>slot_f = Val v, slot_p = Val (Block (brk s))\<rparr>])\<rparr>"
  have rp: "read_p s e = Inr (AddrF e)"
    using assms by (simp add: read_p_def)
  have al: "(case cs_malloc_block (index + 1) s of (q', s') \<Rightarrow> write_p s' e q') = Inr ?s1"
    using assms by (simp add: cs_malloc_block_def write_p_def)
  have tail: "ebind (read_f ?s1 e) (\<lambda>v.
        ebind (store_p ?s1 e 0 v) (\<lambda>s2.
        ebind (read_size s2 e) (\<lambda>sz.
        ebind (null_loop e sz (index + 1) s2) (\<lambda>s3.
        write_size s3 e (index + 1))))) =
     Inr (?s1\<lparr>sublist_size := Some (z[e := Val (word_of_int (index + 1))]),
             heap := (heap ?s1)(brk s \<mapsto> grown_block ?B v (sint w) index)\<rparr>)"
    using assms by (intro grow_tail) (simp_all add: read_f_def read_p_def)
  show ?thesis
    unfolding grow_sublist_def Let_def
    using assms(9) rp al tail by (simp add: ebind_def)
qed

lemma grow_sublist_block:
  assumes "field_pointer s = Some a" "sublist_size s = Some z" "e < length a" "e < length z"
    "a ! e = \<lparr>slot_f = Val v, slot_p = Val (Block b)\<rparr>" "z ! e = Val w"
    "heap s b = Some blk"
    "0 \<le> sint w" "sint w \<le> index" "index < INT_MAX"
  shows "grow_sublist e index s =
    Inr (s\<lparr>sublist_size := Some (z[e := Val (word_of_int (index + 1))]),
           heap := (heap s)(b \<mapsto> grown_block (realloc_cells blk (index + 1)) v (sint w) index)\<rparr>)"
proof -
  let ?B = "realloc_cells blk (index + 1)"
  let ?s1 = "s\<lparr>heap := (heap s)(b \<mapsto> ?B)\<rparr>"
  have rp: "read_p s e = Inr (Block b)"
    using assms by (simp add: read_p_def)
  have "a[e := (a ! e)\<lparr>slot_p := Val (Block b)\<rparr>] = a[e := a ! e]"
    using assms(5) by simp
  then have "a[e := (a ! e)\<lparr>slot_p := Val (Block b)\<rparr>] = a"
    by simp
  then have al: "ebind (cs_realloc_block (Block b) (index + 1) s) (\<lambda>(q', s'). write_p s' e q')
      = Inr ?s1"
    using assms by (simp add: cs_realloc_block_def write_p_def ebind_def realloc_cells_def)
  have tail: "ebind (read_f ?s1 e) (\<lambda>v.
        ebind (store_p ?s1 e 0 v) (\<lambda>s2.
        ebind (read_size s2 e) (\<lambda>sz.
        ebind (null_loop e sz (index + 1) s2) (\<lambda>s3.
        write_size s3 e (index + 1))))) =
     Inr (?s1\<lparr>sublist_size := Some (z[e := Val (word_of_int (index + 1))]),
             heap := (heap ?s1)(b \<mapsto> grown_block ?B v (sint w) index)\<rparr>)"
    using assms by (intro grow_tail) (simp_all add: read_f_def read_p_def)
  show ?thesis
    unfolding grow_sublist_def Let_def
    using assms(10) rp al tail by (simp add: ebind_def)
qed

subsection \<open>The paths of \<^verbatim>\<open>cs_field_pointer_map_indexed\<close>\<close>

lemma map_indexed_negative:
  "index < 0 \<Longrightarrow> cs_field_pointer_map_indexed N e index fp s = Inl Assertion_failed"
  by (simp add: cs_field_pointer_map_indexed_def)

lemma map_indexed_bad_enum:
  "field_pointer s = Some a \<Longrightarrow> \<not> int e < n_pointers s \<Longrightarrow>
   cs_field_pointer_map_indexed N e index fp s = Inl Assertion_failed"
  by (simp add: cs_field_pointer_map_indexed_def ebind_def)

lemma map_indexed_lazy:
  assumes "field_pointer s = None" "0 \<le> index"
  shows "cs_field_pointer_map_indexed N e index fp s =
     cs_field_pointer_map_indexed N e index fp
       (s\<lparr>n_pointers := int N,
          field_pointer := Some (map fresh_slot [0..<N]),
          sublist_size := Some (replicate N (Val 0)),
          cs_glob_field_pointers := Field_pointer_array\<rparr>)"
  using assms by (simp add: cs_field_pointer_map_indexed_def init_pointers_eq ebind_def)

lemma map_indexed_direct:
  assumes "field_pointer s = Some a" "sublist_size s = Some z" "e < length a" "e < length z"
    "int e < n_pointers s" "z ! e = Val w" "sint w \<le> 1"
  shows "cs_field_pointer_map_indexed N e 0 fp s =
    Inr (s\<lparr>field_pointer := Some (a[e := (a ! e)\<lparr>slot_f := Val fp\<rparr>]),
           sublist_size := Some (z[e := Val 1])\<rparr>)"
  using assms
  by (simp add: cs_field_pointer_map_indexed_def ebind_def read_size_def write_f_def
      write_size_def)

lemma map_indexed_overwrite:
  assumes "field_pointer s = Some a" "sublist_size s = Some z" "e < length a" "e < length z"
    "int e < n_pointers s" "z ! e = Val w" "slot_p (a ! e) = Val (Block b)"
    "heap s b = Some blk" "0 \<le> index" "index < sint w" "1 < sint w"
    "index < int (length blk)"
  shows "cs_field_pointer_map_indexed N e index fp s =
    Inr (s\<lparr>heap := (heap s)(b \<mapsto> blk[nat index := Val fp])\<rparr>)"
proof -
  have "store_p s e index fp = Inr (s\<lparr>heap := (heap s)(b \<mapsto> blk[nat index := Val fp])\<rparr>)"
    using assms by (intro store_p_block) (simp_all add: read_p_def)
  then show ?thesis
    using assms
    by (simp add: cs_field_pointer_map_indexed_def ebind_def read_size_def)
qed

lemma map_indexed_overwrite_out:
  assumes "field_pointer s = Some a" "sublist_size s = Some z" "e < length a" "e < length z"
    "int e < n_pointers s" "z ! e = Val w" "slot_p (a ! e) = Val (Block b)"
    "heap s b = Some blk" "0 \<le> index" "index < sint w" "1 < sint w"
    "int (length blk) \<le> index"
  shows "cs_field_pointer_map_indexed N e index fp s = Inl Out_of_bounds"
proof -
  have "store_p s e index fp = Inl Out_of_bounds"
    using assms by (intro store_p_block_out) (simp_all add: read_p_def)
  then show ?thesis
    using assms
    by (simp add: cs_field_pointer_map_indexed_def ebind_def read_size_def)
qed

lemma map_indexed_grow_inline:
  assumes "field_pointer s = Some a" "sublist_size s = Some z" "e < length a" "e < length z"
    "int e < n_pointers s"
    "a ! e = \<lparr>slot_f = Val v, slot_p = Val (AddrF e)\<rparr>" "z ! e = Val w"
    "0 \<le> sint w" "sint w \<le> index" "0 < index" "index < INT_MAX"
  shows "cs_field_pointer_map_indexed N e index fp s =
    Inr (s\<lparr>field_pointer := Some (a[e := \<lparr>slot_f = Val v, slot_p = Val (Block (brk s))\<rparr>]),
           sublist_size := Some (z[e := Val (word_of_int (index + 1))]),
           heap := (heap s)(brk s \<mapsto>
              (grown_block (replicate (nat (index + 1)) Indet) v (sint w) index)
                [nat index := Val fp]),
           brk := Suc (brk s)\<rparr>)"
proof -
  let ?G = "grown_block (replicate (nat (index + 1)) Indet) v (sint w) index"
  let ?s1 = "s\<lparr>field_pointer := Some (a[e := \<lparr>slot_f = Val v, slot_p = Val (Block (brk s))\<rparr>]),
           sublist_size := Some (z[e := Val (word_of_int (index + 1))]),
           heap := (heap s)(brk s \<mapsto> ?G),
           brk := Suc (brk s)\<rparr>"
  have g: "grow_sublist e index s = Inr ?s1"
    using assms by (intro grow_sublist_inline) simp_all
  have len: "length ?G = nat (index + 1)"
    using assms by (intro length_grown_block) simp_all
  have "store_p ?s1 e index fp = Inr (?s1\<lparr>heap := (heap ?s1)(brk s \<mapsto> ?G[nat index := Val fp])\<rparr>)"
    using assms len by (intro store_p_block) (simp_all add: read_p_def)
  then show ?thesis
    using assms g
    by (simp add: cs_field_pointer_map_indexed_def ebind_def read_size_def)
qed

lemma map_indexed_grow_block:
  assumes "field_pointer s = Some a" "sublist_size s = Some z" "e < length a" "e < length z"
    "int e < n_pointers s"
    "a ! e = \<lparr>slot_f = Val v, slot_p = Val (Block b)\<rparr>" "z ! e = Val w"
    "heap s b = Some blk"
    "0 \<le> sint w" "sint w \<le> index" "index = 0 \<longrightarrow> 1 < sint w" "index < INT_MAX"
  shows "cs_field_pointer_map_indexed N e index fp s =
    Inr (s\<lparr>sublist_size := Some (z[e := Val (word_of_int (index + 1))]),
           heap := (heap s)(b \<mapsto>
              (grown_block (realloc_cells blk (index + 1)) v (sint w) index)
                [nat index := Val fp])\<rparr>)"
proof -
  let ?G = "grown_block (realloc_cells blk (index + 1)) v (sint w) index"
  let ?s1 = "s\<lparr>sublist_size := Some (z[e := Val (word_of_int (index + 1))]),
           heap := (heap s)(b \<mapsto> ?G)\<rparr>"
  have g: "grow_sublist e index s = Inr ?s1"
    using assms by (intro grow_sublist_block) simp_all
  have len: "length ?G = nat (index + 1)"
    using assms by (intro length_grown_block) simp_all
  have "store_p ?s1 e index fp = Inr (?s1\<lparr>heap := (heap ?s1)(b \<mapsto> ?G[nat index := Val fp])\<rparr>)"
    using assms len by (intro store_p_block) (simp_all add: read_p_def)
  then show ?thesis
    using assms g
    by (simp add: cs_field_pointer_map_indexed_def ebind_def read_size_def)
qed

lemma grow_sublist_negative:
  assumes "field_pointer s = Some a" "sublist_size s = Some z" "e < length a" "e < length z"
    "slot_f (a ! e) = Val v" "slot_p (a ! e) = Val q"
    "q = AddrF e \<or> (\<exists>blk. q = Block b \<and> heap s b = Some blk)"
    "z ! e = Val w" "sint w < 0" "0 \<le> index" "index < INT_MAX"
  shows "grow_sublist e index s = Inl Out_of_bounds"
proof -
  obtain s1 b' B where s1: "(if q = AddrF e
               then (case cs_malloc_block (index + 1) s of (q', s') \<Rightarrow> write_p s' e q')
               else ebind (cs_realloc_block q (index + 1) s) (\<lambda>(q', s'). write_p s' e q')) = Inr s1"
     and r1: "read_f s1 e = Inr v" "read_p s1 e = Inr (Block b')" "heap s1 b' = Some B"
       "length B = nat (index + 1)" "read_size s1 e = Inr (sint w)"
    using assms(7)
  proof
    assume q: "q = AddrF e"
    let ?s1 = "s\<lparr>heap := (heap s)(brk s \<mapsto> replicate (nat (index + 1)) Indet), brk := Suc (brk s),
      field_pointer := Some (a[e := (a ! e)\<lparr>slot_p := Val (Block (brk s))\<rparr>])\<rparr>"
    show ?thesis
      by (rule that[of ?s1 "brk s" "replicate (nat (index + 1)) Indet"])
        (use assms q in \<open>simp_all add: cs_malloc_block_def write_p_def read_f_def read_p_def read_size_def\<close>)
  next
    assume "\<exists>blk. q = Block b \<and> heap s b = Some blk"
    then obtain blk where q: "q = Block b" "heap s b = Some blk" by blast
    let ?s1 = "s\<lparr>heap := (heap s)(b \<mapsto> realloc_cells blk (index + 1)),
       field_pointer := Some (a[e := (a ! e)\<lparr>slot_p := Val (Block b)\<rparr>])\<rparr>"
    show ?thesis
      by (rule that[of ?s1 b "realloc_cells blk (index + 1)"])
        (use assms q in \<open>simp_all add: cs_realloc_block_def write_p_def read_f_def read_p_def
           read_size_def ebind_def realloc_cells_def\<close>)
  qed
  let ?s2 = "s1\<lparr>heap := (heap s1)(b' \<mapsto> B[nat 0 := Val v])\<rparr>"
  have st: "store_p s1 e 0 v = Inr ?s2"
    using r1 assms by (intro store_p_block) auto
  have rs: "read_size ?s2 e = Inr (sint w)"
    using r1 by (simp add: read_size_def)
  have nl: "null_loop e (sint w) (index + 1) ?s2 = Inl Out_of_bounds"
    using r1 assms by (intro null_loop_negative[where b = b' and blk = "B[nat 0 := Val v]"]) auto
  have rp: "read_p s e = Inr q"
    using assms by (simp add: read_p_def)
  show ?thesis
    unfolding grow_sublist_def Let_def
    using assms(11) rp s1 r1(1) st rs nl by (simp add: ebind_def)
qed

lemma map_indexed_grow_negative:
  assumes "field_pointer s = Some a" "sublist_size s = Some z" "e < length a" "e < length z"
    "int e < n_pointers s"
    "slot_f (a ! e) = Val v" "slot_p (a ! e) = Val q"
    "q = AddrF e \<or> (\<exists>blk. q = Block b \<and> heap s b = Some blk)"
    "z ! e = Val w" "sint w < 0" "0 < index" "index < INT_MAX"
  shows "cs_field_pointer_map_indexed N e index fp s = Inl Out_of_bounds"
proof -
  have "grow_sublist e index s = Inl Out_of_bounds"
    using assms by (intro grow_sublist_negative[where q = q and b = b]) simp_all
  then show ?thesis
    using assms
    by (simp add: cs_field_pointer_map_indexed_def ebind_def read_size_def)
qed

lemma map_indexed_overflow:
  assumes "field_pointer s = Some a" "sublist_size s = Some z" "e < length z"
    "int e < n_pointers s" "z ! e = Val w" "INT_MAX \<le> index"
  shows "cs_field_pointer_map_indexed N e index fp s = Inl Signed_overflow"
proof -
  have "sint w < 2 ^ 15" using sint_lt[of w] by simp
  then have "sint w \<le> index" "0 < index" using assms(6) by (simp_all add: INT_MAX_def)
  then show ?thesis
  using assms
    by (simp add: cs_field_pointer_map_indexed_def ebind_def read_size_def grow_sublist_def)
qed

text \<open>
  A call that returns in a state whose slots are well formed took one of four paths: the
  direct store, the first expansion, the growth of a block, or a store into the block.
\<close>

lemma map_indexed_shape:
  assumes "field_pointer s = Some a" "sublist_size s = Some z" "length a = N" "length z = N"
    "n_pointers s = int N" "\<forall>i<N. wf_slot s a z i"
    "cs_field_pointer_map_indexed N e index fp s = Inr s'"
  obtains
    (direct) v q w where "e < N" "a ! e = \<lparr>slot_f = Val v, slot_p = Val q\<rparr>" "z ! e = Val w"
      "index = 0" "sint w \<le> 1"
      "s' = s\<lparr>field_pointer := Some (a[e := \<lparr>slot_f = Val fp, slot_p = Val q\<rparr>]),
                sublist_size := Some (z[e := Val 1])\<rparr>"
  | (grow_inline) v w where "e < N" "a ! e = \<lparr>slot_f = Val v, slot_p = Val (AddrF e)\<rparr>"
      "z ! e = Val w" "0 < index" "0 \<le> sint w" "sint w \<le> 1" "index < INT_MAX"
      "s' = s\<lparr>field_pointer := Some (a[e := \<lparr>slot_f = Val v, slot_p = Val (Block (brk s))\<rparr>]),
           sublist_size := Some (z[e := Val (word_of_int (index + 1))]),
           heap := (heap s)(brk s \<mapsto>
              (grown_block (replicate (nat (index + 1)) Indet) v (sint w) index)
                [nat index := Val fp]),
           brk := Suc (brk s)\<rparr>"
  | (grow_block) v w b blk where "e < N" "a ! e = \<lparr>slot_f = Val v, slot_p = Val (Block b)\<rparr>"
      "z ! e = Val w" "0 \<le> index" "0 \<le> sint w" "sint w \<le> index" "index = 0 \<longrightarrow> 1 < sint w"
      "index < INT_MAX" "heap s b = Some blk"
      "s' = s\<lparr>sublist_size := Some (z[e := Val (word_of_int (index + 1))]),
                  heap := (heap s)(b \<mapsto>
                    (grown_block (realloc_cells blk (index + 1)) v (sint w) index)
                      [nat index := Val fp])\<rparr>"
  | (overwrite) v w b blk where "e < N" "a ! e = \<lparr>slot_f = Val v, slot_p = Val (Block b)\<rparr>"
      "z ! e = Val w" "0 \<le> index" "index < sint w" "1 < sint w"
      "heap s b = Some blk" "index < int (length blk)"
      "s' = s\<lparr>heap := (heap s)(b \<mapsto> blk[nat index := Val fp])\<rparr>"
proof -
  have idx: "0 \<le> index"
    using assms(7) by (rule contrapos_pp) (simp add: map_indexed_negative)
  have e: "e < N"
  proof (rule ccontr)
    assume "\<not> e < N"
    with assms(1,5) have "cs_field_pointer_map_indexed N e index fp s = Inl Assertion_failed"
      by (intro map_indexed_bad_enum) simp_all
    with assms(7) show False by simp
  qed
  from assms(6) e have "wf_slot s a z e" by simp
  then obtain v q w where
    sl: "a ! e = \<lparr>slot_f = Val v, slot_p = Val q\<rparr>" "z ! e = Val w"
    and q: "q = AddrF e \<and> sint w \<le> 1 \<or>
         (\<exists>b blk. q = Block b \<and> b < brk s \<and> heap s b = Some blk \<and>
            blk \<noteq> [] \<and> sint w \<le> int (length blk))"
    unfolding wf_slot_def by blast
  from sl have sf: "slot_f (a ! e) = Val v" "slot_p (a ! e) = Val q"
    by simp_all
  have ea: "e < length a" "e < length z" "int e < n_pointers s"
    using e assms(3,4,5) by simp_all
  consider (c1) "index = 0" "sint w \<le> 1"
    | (c2) "\<not> (index = 0 \<and> sint w \<le> 1)" "sint w \<le> index" "INT_MAX \<le> index"
    | (c3) "0 < index" "sint w < 0" "index < INT_MAX"
    | (c4) "\<not> (index = 0 \<and> sint w \<le> 1)" "0 \<le> sint w" "sint w \<le> index" "index < INT_MAX"
    | (c5) "1 < sint w" "index < sint w"
    using idx by linarith
  then show ?thesis
  proof cases
    case c1
    have "a[e := (a ! e)\<lparr>slot_f := Val fp\<rparr>] = a[e := \<lparr>slot_f = Val fp, slot_p = Val q\<rparr>]"
      using sl by simp
    then have "cs_field_pointer_map_indexed N e index fp s =
      Inr (s\<lparr>field_pointer := Some (a[e := \<lparr>slot_f = Val fp, slot_p = Val q\<rparr>]),
                sublist_size := Some (z[e := Val 1])\<rparr>)"
      using map_indexed_direct[OF assms(1,2) ea sl(2) c1(2), of N fp] c1(1) by simp
    with assms(7) have "s' = s\<lparr>field_pointer := Some (a[e := \<lparr>slot_f = Val fp, slot_p = Val q\<rparr>]),
                sublist_size := Some (z[e := Val 1])\<rparr>" by simp
    with e sl c1 show ?thesis by (intro direct[of v q w])
  next
    case c2
    have "cs_field_pointer_map_indexed N e index fp s = Inl Signed_overflow"
      using assms(1,2) ea sl c2 by (intro map_indexed_overflow) simp_all
    with assms(7) show ?thesis by simp
  next
    case c3
    have "cs_field_pointer_map_indexed N e index fp s = Inl Out_of_bounds"
      using q
    proof
      assume "q = AddrF e \<and> sint w \<le> 1"
      then show ?thesis
        using assms(1,2) ea sf sl(2) c3
        by (intro map_indexed_grow_negative[where q = q and b = 0 and v = v]) simp_all
    next
      assume "\<exists>b blk. q = Block b \<and> b < brk s \<and> heap s b = Some blk \<and>
            blk \<noteq> [] \<and> sint w \<le> int (length blk)"
      then obtain b blk where "q = Block b" "heap s b = Some blk" by blast
      then show ?thesis
        using assms(1,2) ea sf sl(2) c3
        by (intro map_indexed_grow_negative[where q = q and b = b and v = v]) simp_all
    qed
    with assms(7) show ?thesis by simp
  next
    case c4
    from q show ?thesis
    proof
      assume qa: "q = AddrF e \<and> sint w \<le> 1"
      with c4 have pos: "0 < index" by linarith
      have "cs_field_pointer_map_indexed N e index fp s =
        Inr (s\<lparr>field_pointer := Some (a[e := \<lparr>slot_f = Val v, slot_p = Val (Block (brk s))\<rparr>]),
           sublist_size := Some (z[e := Val (word_of_int (index + 1))]),
           heap := (heap s)(brk s \<mapsto>
              (grown_block (replicate (nat (index + 1)) Indet) v (sint w) index)
                [nat index := Val fp]),
           brk := Suc (brk s)\<rparr>)"
        using assms(1,2) ea sl qa c4 pos by (intro map_indexed_grow_inline) simp_all
      with assms(7) have "s' = s\<lparr>field_pointer := Some (a[e := \<lparr>slot_f = Val v, slot_p = Val (Block (brk s))\<rparr>]),
           sublist_size := Some (z[e := Val (word_of_int (index + 1))]),
           heap := (heap s)(brk s \<mapsto>
              (grown_block (replicate (nat (index + 1)) Indet) v (sint w) index)
                [nat index := Val fp]),
           brk := Suc (brk s)\<rparr>" by simp
      with e sl qa c4 pos show ?thesis by (intro grow_inline[of v w]) simp_all
    next
      assume "\<exists>b blk. q = Block b \<and> b < brk s \<and> heap s b = Some blk \<and>
            blk \<noteq> [] \<and> sint w \<le> int (length blk)"
      then obtain b blk where qb: "q = Block b" "heap s b = Some blk" by blast
      have "cs_field_pointer_map_indexed N e index fp s =
        Inr (s\<lparr>sublist_size := Some (z[e := Val (word_of_int (index + 1))]),
                  heap := (heap s)(b \<mapsto>
                    (grown_block (realloc_cells blk (index + 1)) v (sint w) index)
                      [nat index := Val fp])\<rparr>)"
        using assms(1,2) ea sl qb c4 by (intro map_indexed_grow_block) simp_all
      with assms(7) have "s' = s\<lparr>sublist_size := Some (z[e := Val (word_of_int (index + 1))]),
                  heap := (heap s)(b \<mapsto>
                    (grown_block (realloc_cells blk (index + 1)) v (sint w) index)
                      [nat index := Val fp])\<rparr>" by simp
      with e sl qb c4 idx show ?thesis by (intro grow_block[of v b w blk]) simp_all
    qed
  next
    case c5
    with q obtain b blk where qb: "q = Block b" "heap s b = Some blk" by auto
    have sb: "slot_p (a ! e) = Val (Block b)"
      using sf(2) by (simp add: qb(1))
    show ?thesis
    proof (cases "index < int (length blk)")
      case True
      have "cs_field_pointer_map_indexed N e index fp s =
          Inr (s\<lparr>heap := (heap s)(b \<mapsto> blk[nat index := Val fp])\<rparr>)"
        using assms(1,2) ea sl(2) sb qb(2) c5 idx True by (intro map_indexed_overwrite) simp_all
      with assms(7) have "s' = s\<lparr>heap := (heap s)(b \<mapsto> blk[nat index := Val fp])\<rparr>" by simp
      with e sl qb c5 idx True show ?thesis by (intro overwrite[of v b w blk]) simp_all
    next
      case False
      have "cs_field_pointer_map_indexed N e index fp s = Inl Out_of_bounds"
        using assms(1,2) ea sl(2) sb qb(2) c5 idx False
        by (intro map_indexed_overwrite_out[where b = b and blk = blk]) simp_all
      with assms(7) show ?thesis by simp
    qed
  qed
qed

section \<open>Invariants\<close>

subsection \<open>Conversion to \<^verbatim>\<open>short int\<close>, and what a call leaves alone\<close>

lemma sint_short_small:
  "0 \<le> n \<Longrightarrow> n < 32768 \<Longrightarrow> sint (word_of_int n :: 16 word) = n"
  by (simp add: sint_sbintrunc' signed_take_bit_int_eq_self)

lemma sint_short_le:
  assumes "0 \<le> n"
  shows "sint (word_of_int n :: 16 word) \<le> n"
proof (cases "n < 32768")
  case True
  with assms show ?thesis by (simp add: sint_short_small)
next
  case False
  have "sint (word_of_int n :: 16 word) < 2 ^ (16 - 1)"
    using sint_lt[of "word_of_int n :: 16 word"] by simp
  with False show ?thesis by simp
qed

lemma wf_slot_frame:
  assumes "wf_slot s a z i" "a' ! i = a ! i" "z' ! i = z ! i" "brk s \<le> brk s'"
    "\<And>b. slot_p (a ! i) = Val (Block b) \<Longrightarrow> heap s' b = heap s b"
  shows "wf_slot s' a' z' i"
proof -
  from assms(1) obtain v q w where
    sl: "a ! i = \<lparr>slot_f = Val v, slot_p = Val q\<rparr>" "z ! i = Val w"
    and q: "q = AddrF i \<and> sint w \<le> 1 \<or>
         (\<exists>b blk. q = Block b \<and> b < brk s \<and> heap s b = Some blk \<and>
            blk \<noteq> [] \<and> sint w \<le> int (length blk))"
    unfolding wf_slot_def by blast
  from q show ?thesis
  proof
    assume "q = AddrF i \<and> sint w \<le> 1"
    then show ?thesis
      unfolding wf_slot_def using sl assms(2,3) by simp
  next
    assume "\<exists>b blk. q = Block b \<and> b < brk s \<and> heap s b = Some blk \<and>
            blk \<noteq> [] \<and> sint w \<le> int (length blk)"
    then obtain b blk where b: "q = Block b" "b < brk s" "heap s b = Some blk"
      "blk \<noteq> []" "sint w \<le> int (length blk)" by blast
    have "slot_p (a ! i) = Val (Block b)" using sl(1) by (simp add: b(1))
    then have "heap s' b = Some blk" using assms(5) b(3) by simp
    moreover have "b < brk s'" using b(2) assms(4) by simp
    ultimately show ?thesis
      unfolding wf_slot_def using sl assms(2,3) b by simp
  qed
qed

lemma wf_slot_block:
  assumes "a ! i = \<lparr>slot_f = Val v, slot_p = Val (Block b)\<rparr>" "z ! i = Val w"
    "b < brk s" "heap s b = Some blk" "blk \<noteq> []" "sint w \<le> int (length blk)"
  shows "wf_slot s a z i"
  unfolding wf_slot_def using assms by simp

lemma wf_slot_ptr:
  assumes "wf_slot s a z i"
  shows "slot_p (a ! i) = Val (AddrF i) \<or> (\<exists>b. slot_p (a ! i) = Val (Block b) \<and> b < brk s)"
  using assms unfolding wf_slot_def by auto

lemma distinct_ptr_neq:
  assumes "distinct (map slot_p a)" "i < length a" "e < length a" "i \<noteq> e"
  shows "slot_p (a ! i) \<noteq> slot_p (a ! e)"
proof -
  have "((map slot_p a) ! i = (map slot_p a) ! e) = (i = e)"
    using assms by (intro nth_eq_iff_index_eq) simp_all
  then show ?thesis using assms by simp
qed

subsection \<open>The invariant of every reachable state\<close>

lemma length_final_block:
  assumes "0 \<le> sz" "sz \<le> index" "length B = nat (index + 1)"
  shows "length ((grown_block B v sz index)[nat index := Val fp]) = nat (index + 1)"
  using assms by (simp add: length_grown_block)

lemma winv_map_indexed:
  assumes inv: "winv N s" and ok: "cs_field_pointer_map_indexed N e index fp s = Inr s'"
  shows "winv N s'"
proof -
  from inv obtain a z where ar: "field_pointer s = Some a" "sublist_size s = Some z"
    "length a = N" "length z = N" and wf: "\<forall>i<N. wf_slot s a z i"
    and dist: "distinct (map slot_p a)"
    and np: "n_pointers s = int N" and gl: "cs_glob_field_pointers s = Field_pointer_array"
    unfolding winv_def by blast
  from ar np wf ok show ?thesis
  proof (cases rule: map_indexed_shape)
    case (direct v q w)
    let ?a = "a[e := \<lparr>slot_f = Val fp, slot_p = Val q\<rparr>]"
    let ?z = "z[e := Val 1]"
    have "wf_slot s' ?a ?z i" if "i < N" for i
    proof (cases "i = e")
      case True
      from wf direct(1) have "wf_slot s a z e" by simp
      then show ?thesis
        unfolding wf_slot_def using direct ar True by (auto simp: Suc_le_eq)
    next
      case False
      from wf that have wi: "wf_slot s a z i" by simp
      show ?thesis
        by (rule wf_slot_frame[OF wi]) (use False direct(6) in simp_all)
    qed
    moreover have "map slot_p ?a = map slot_p a"
      using direct(1,2) ar(3) by (simp add: map_update list_update_same_conv)
    ultimately show ?thesis
      unfolding winv_def using direct(6) ar np gl dist by simp
  next
    case (grow_inline v w)
    let ?a = "a[e := \<lparr>slot_f = Val v, slot_p = Val (Block (brk s))\<rparr>]"
    let ?z = "z[e := Val (word_of_int (index + 1))]"
    let ?B = "(grown_block (replicate (nat (index + 1)) Indet) v (sint w) index)[nat index := Val fp]"
    have len: "length ?B = nat (index + 1)"
      using grow_inline by (intro length_final_block) simp_all
    have "wf_slot s' ?a ?z i" if "i < N" for i
    proof (cases "i = e")
      case True
      have "sint (word_of_int (index + 1) :: 16 word) \<le> index + 1"
        using grow_inline(4) by (intro sint_short_le) simp
      then show ?thesis
        using True grow_inline ar len
        by (intro wf_slot_block[where b = "brk s" and blk = ?B and v = v]) auto
    next
      case False
      from wf that have wi: "wf_slot s a z i" by simp
      have hp: "heap s' b = heap s b" if "slot_p (a ! i) = Val (Block b)" for b
        using wf_slot_ptr[OF wi] that grow_inline(8) by auto
      show ?thesis
        by (rule wf_slot_frame[OF wi _ _ _ hp]) (use False grow_inline(8) in simp_all)
    qed
    moreover have "distinct (map slot_p ?a)"
    proof -
      have "Val (Block (brk s)) \<notin> set (map slot_p a)"
      proof
        assume "Val (Block (brk s)) \<in> set (map slot_p a)"
        then obtain i where i: "i < length a" "slot_p (a ! i) = Val (Block (brk s))"
          by (auto simp: in_set_conv_nth)
        with wf ar(3) have "wf_slot s a z i" by simp
        from wf_slot_ptr[OF this] i(2) show False by auto
      qed
      then show ?thesis
        using dist by (simp add: map_update distinct_list_update)
    qed
    ultimately show ?thesis
      unfolding winv_def using grow_inline(8) ar np gl by simp
  next
    case (grow_block v w b blk)
    let ?z = "z[e := Val (word_of_int (index + 1))]"
    let ?B = "(grown_block (realloc_cells blk (index + 1)) v (sint w) index)[nat index := Val fp]"
    have len: "length ?B = nat (index + 1)"
      using grow_block by (intro length_final_block) simp_all
    from wf grow_block(1) have we: "wf_slot s a z e" by simp
    have bb: "b < brk s"
      using wf_slot_ptr[OF we] grow_block(2) by simp
    have "wf_slot s' a ?z i" if "i < N" for i
    proof (cases "i = e")
      case True
      have "sint (word_of_int (index + 1) :: 16 word) \<le> index + 1"
        using grow_block(4) by (intro sint_short_le) simp
      then show ?thesis
        using True grow_block ar len bb
        by (intro wf_slot_block[where b = b and blk = ?B and v = v]) auto
    next
      case False
      from wf that have wi: "wf_slot s a z i" by simp
      have ne: "slot_p (a ! i) \<noteq> slot_p (a ! e)"
        using dist that grow_block(1) ar(3) False by (intro distinct_ptr_neq) simp_all
      have hp: "heap s' b' = heap s b'" if "slot_p (a ! i) = Val (Block b')" for b'
        using ne that grow_block(2,10) by auto
      show ?thesis
        by (rule wf_slot_frame[OF wi _ _ _ hp]) (use False grow_block(10) in simp_all)
    qed
    then show ?thesis
      unfolding winv_def using grow_block(10) ar np gl dist by simp
  next
    case (overwrite v w b blk)
    from wf overwrite(1) have we: "wf_slot s a z e" by simp
    have "wf_slot s' a z i" if "i < N" for i
    proof (cases "i = e")
      case True
      have "b < brk s \<and> blk \<noteq> [] \<and> sint w \<le> int (length blk)"
        using we overwrite(2,3,7) unfolding wf_slot_def by auto
      then show ?thesis
        using True overwrite
        by (intro wf_slot_block[where b = b and blk = "blk[nat index := Val fp]" and v = v and w = w])
           auto
    next
      case False
      from wf that have wi: "wf_slot s a z i" by simp
      have ne: "slot_p (a ! i) \<noteq> slot_p (a ! e)"
        using dist that overwrite(1) ar(3) False by (intro distinct_ptr_neq) simp_all
      have hp: "heap s' b' = heap s b'" if "slot_p (a ! i) = Val (Block b')" for b'
        using ne that overwrite(2,9) by auto
      show ?thesis
        by (rule wf_slot_frame[OF wi _ _ _ hp]) (use False overwrite(9) in simp_all)
    qed
    then show ?thesis
      unfolding winv_def using overwrite(9) ar np gl dist by simp
  qed
qed

subsection \<open>Sequences of calls\<close>

lemma winv_fresh: "winv N (fresh_registry N s)"
proof -
  have "wf_slot (fresh_registry N s) (map fresh_slot [0..<N]) (replicate N (Val 0)) i"
    if "i < N" for i
    unfolding wf_slot_def using that by (simp add: fresh_slot_def)
  moreover have "distinct (map slot_p (map fresh_slot [0..<N]))"
    by (simp add: distinct_map inj_on_def fresh_slot_def)
  ultimately show ?thesis
    unfolding winv_def by (simp add: fresh_registry_def)
qed

lemma fresh_registry_reads:
  assumes "e < N"
  shows "read_f (fresh_registry N s) e = Inr Nullptr"
    "read_p (fresh_registry N s) e = Inr (AddrF e)"
    "read_size (fresh_registry N s) e = Inr 0"
  using assms
  by (simp_all add: fresh_registry_def read_f_def read_p_def read_size_def fresh_slot_def)

lemma ensure_init_eq:
  "cs_field_pointer_ensure_init N s =
     Inr (if field_pointer s = None then fresh_registry N s else s)"
  by (simp add: cs_field_pointer_ensure_init_def init_pointers_eq fresh_registry_def)

lemma map_indexed_lazy':
  assumes "field_pointer s = None"
  shows "cs_field_pointer_map_indexed N e index fp s =
     cs_field_pointer_map_indexed N e index fp (fresh_registry N s)"
proof (cases "0 \<le> index")
  case True
  with assms show ?thesis
    unfolding fresh_registry_def by (rule map_indexed_lazy)
next
  case False
  then show ?thesis by (simp add: map_indexed_negative)
qed

lemma winv_map_indexed_any:
  assumes "field_pointer s \<noteq> None \<longrightarrow> winv N s"
    "cs_field_pointer_map_indexed N e index fp s = Inr s'"
  shows "winv N s'"
proof (cases "field_pointer s = None")
  case True
  with assms(2) have "cs_field_pointer_map_indexed N e index fp (fresh_registry N s) = Inr s'"
    by (simp add: map_indexed_lazy')
  with winv_fresh show ?thesis by (rule winv_map_indexed)
next
  case False
  with assms show ?thesis by (auto intro: winv_map_indexed)
qed

lemma destroy_all_down:
  "cs_field_pointer_destroy_all s = Inr s' \<Longrightarrow> field_pointer s' = None"
  by (auto simp: cs_field_pointer_destroy_all_def ebind_def split: sum.splits)

lemma winv_exec_op:
  assumes "field_pointer s \<noteq> None \<longrightarrow> winv N s" "exec_op N x s = Inr s'"
  shows "field_pointer s' \<noteq> None \<longrightarrow> winv N s'"
proof (cases x)
  case Ensure_init
  with assms show ?thesis
    by (auto simp: ensure_init_eq winv_fresh)
next
  case Destroy_all
  with assms show ?thesis by (simp add: destroy_all_down)
next
  case (Map e fp)
  with assms(2) have "cs_field_pointer_map_indexed N e 0 fp s = Inr s'"
    by (simp add: cs_field_pointer_map_def)
  with assms(1) show ?thesis by (simp add: winv_map_indexed_any)
next
  case (Map_indexed e index fp)
  with assms(2) have "cs_field_pointer_map_indexed N e index fp s = Inr s'"
    by simp
  with assms(1) show ?thesis by (simp add: winv_map_indexed_any)
qed

lemma winv_run:
  assumes "field_pointer s \<noteq> None \<longrightarrow> winv N s" "run N ops s = Inr s'"
  shows "field_pointer s' \<noteq> None \<longrightarrow> winv N s'"
  using assms
proof (induction ops arbitrary: s)
  case Nil
  then show ?case by simp
next
  case (Cons x xs)
  from Cons.prems(2) obtain s1 where s1: "exec_op N x s = Inr s1" "run N xs s1 = Inr s'"
    by (auto split: sum.splits)
  from Cons.prems(1) s1(1) have "field_pointer s1 \<noteq> None \<longrightarrow> winv N s1"
    by (rule winv_exec_op)
  then show ?case using s1(2) by (rule Cons.IH)
qed

lemma winv_reachable:
  assumes "run N ops initial_state = Inr s" "field_pointer s \<noteq> None"
  shows "winv N s"
proof -
  have "field_pointer initial_state \<noteq> None \<longrightarrow> winv N initial_state"
    by (simp add: initial_state_def)
  from winv_run[OF this assms(1)] assms(2) show ?thesis by simp
qed

text \<open>The three pointers are null together.\<close>

lemma winv_initialised: "winv N s \<Longrightarrow> field_pointer s \<noteq> None"
  by (auto simp: winv_def)

lemma down_exec_op:
  assumes "field_pointer s \<noteq> None \<longrightarrow> winv N s" "exec_op N x s = Inr s'"
    "field_pointer s = None \<longrightarrow> sublist_size s = None \<and> cs_glob_field_pointers s = No_array"
  shows "field_pointer s' = None \<longrightarrow>
    sublist_size s' = None \<and> cs_glob_field_pointers s' = No_array"
proof (cases x)
  case Ensure_init
  with assms show ?thesis
    by (auto simp: ensure_init_eq fresh_registry_def split: if_splits)
next
  case Destroy_all
  with assms(2) show ?thesis
    by (auto simp: cs_field_pointer_destroy_all_def ebind_def split: sum.splits)
next
  case (Map e fp)
  with assms(2) have "cs_field_pointer_map_indexed N e 0 fp s = Inr s'"
    by (simp add: cs_field_pointer_map_def)
  with assms(1) have "winv N s'" by (rule winv_map_indexed_any)
  then show ?thesis by (simp add: winv_initialised)
next
  case (Map_indexed e index fp)
  with assms(2) have "cs_field_pointer_map_indexed N e index fp s = Inr s'"
    by simp
  with assms(1) have "winv N s'" by (rule winv_map_indexed_any)
  then show ?thesis by (simp add: winv_initialised)
qed

lemma down_run:
  assumes "field_pointer s \<noteq> None \<longrightarrow> winv N s" "run N ops s = Inr s'"
    "field_pointer s = None \<longrightarrow> sublist_size s = None \<and> cs_glob_field_pointers s = No_array"
  shows "field_pointer s' = None \<longrightarrow>
    sublist_size s' = None \<and> cs_glob_field_pointers s' = No_array"
  using assms
proof (induction ops arbitrary: s)
  case Nil
  then show ?case by simp
next
  case (Cons x xs)
  from Cons.prems(2) obtain s1 where s1: "exec_op N x s = Inr s1" "run N xs s1 = Inr s'"
    by (auto split: sum.splits)
  from Cons.prems(1) s1(1) have w: "field_pointer s1 \<noteq> None \<longrightarrow> winv N s1"
    by (rule winv_exec_op)
  from Cons.prems(1) s1(1) Cons.prems(3)
  have d: "field_pointer s1 = None \<longrightarrow>
      sublist_size s1 = None \<and> cs_glob_field_pointers s1 = No_array"
    by (rule down_exec_op)
  from w s1(2) d show ?case by (rule Cons.IH)
qed

lemma down_reachable:
  assumes "run N ops initial_state = Inr s" "field_pointer s = None"
  shows "sublist_size s = None" "cs_glob_field_pointers s = No_array"
proof -
  have "field_pointer initial_state \<noteq> None \<longrightarrow> winv N initial_state"
    "field_pointer initial_state = None \<longrightarrow>
      sublist_size initial_state = None \<and> cs_glob_field_pointers initial_state = No_array"
    by (simp_all add: initial_state_def)
  from down_run[OF this(1) assms(1) this(2)] assms(2)
  show "sublist_size s = None" "cs_glob_field_pointers s = No_array"
    by simp_all
qed

subsection \<open>Teardown\<close>

lemma winv_destroy_ready:
  assumes "winv N s"
  shows "destroy_ready N 0 s"
proof -
  from assms obtain a z where ar: "field_pointer s = Some a" "sublist_size s = Some z"
    "length a = N" "length z = N" and wf: "\<forall>i<N. wf_slot s a z i"
    and dist: "distinct (map slot_p a)" and np: "n_pointers s = int N"
    unfolding winv_def by blast
  have "\<exists>q w. slot_p (a ! j) = Val q \<and> z ! j = Val w \<and>
              (1 < sint w \<longrightarrow> (\<exists>b blk. q = Block b \<and> heap s b = Some blk))"
    if "j < N" for j
  proof -
    from wf that have "wf_slot s a z j" by simp
    then show ?thesis unfolding wf_slot_def by auto
  qed
  moreover have "slot_p (a ! j) \<noteq> slot_p (a ! k)" if "j < k" "k < N" for j k
    using dist that ar(3) by (intro distinct_ptr_neq) simp_all
  ultimately show ?thesis
    unfolding destroy_ready_def using ar np by simp
qed

lemma destroy_slot_ready:
  assumes "destroy_ready N i s" "i < N"
  shows "\<exists>s'. destroy_slot i s = Inr s' \<and> destroy_ready N (Suc i) s'"
proof -
  from assms(1) obtain a z where ar: "field_pointer s = Some a" "sublist_size s = Some z"
    "length a = N" "length z = N" and np: "n_pointers s = int N"
    and sl: "\<forall>j. i \<le> j \<and> j < N \<longrightarrow>
           (\<exists>q w. slot_p (a ! j) = Val q \<and> z ! j = Val w \<and>
              (1 < sint w \<longrightarrow> (\<exists>b blk. q = Block b \<and> heap s b = Some blk)))"
    and ds: "\<forall>j k. i \<le> j \<and> j < k \<and> k < N \<longrightarrow> slot_p (a ! j) \<noteq> slot_p (a ! k)"
    unfolding destroy_ready_def by blast
  from sl assms(2) obtain q w where qw: "slot_p (a ! i) = Val q" "z ! i = Val w"
    "1 < sint w \<longrightarrow> (\<exists>b blk. q = Block b \<and> heap s b = Some blk)"
    by blast
  show ?thesis
  proof (cases "1 < sint w")
    case False
    then have "destroy_slot i s = Inr s"
      using ar qw assms(2) by (simp add: destroy_slot_def ebind_def read_size_def)
    moreover have "destroy_ready N (Suc i) s"
      unfolding destroy_ready_def using ar np sl ds by auto
    ultimately show ?thesis by simp
  next
    case True
    with qw(3) obtain b blk where b: "q = Block b" "heap s b = Some blk" by blast
    let ?a = "a[i := (a ! i)\<lparr>slot_p := Val Null\<rparr>]"
    let ?s' = "s\<lparr>heap := (heap s)(b := None), field_pointer := Some ?a\<rparr>"
    have "destroy_slot i s = Inr ?s'"
      using ar qw b True assms(2)
      by (simp add: destroy_slot_def ebind_def read_size_def free_p_def read_p_def
          cs_free_block_def write_p_def)
    moreover have "destroy_ready N (Suc i) ?s'"
    proof -
      have "\<exists>q' w'. slot_p (?a ! j) = Val q' \<and> z ! j = Val w' \<and>
              (1 < sint w' \<longrightarrow> (\<exists>b' blk'. q' = Block b' \<and> heap ?s' b' = Some blk'))"
        if "Suc i \<le> j" "j < N" for j
      proof -
        from sl that obtain q' w' where j: "slot_p (a ! j) = Val q'" "z ! j = Val w'"
          "1 < sint w' \<longrightarrow> (\<exists>b' blk'. q' = Block b' \<and> heap s b' = Some blk')"
          by (metis Suc_leD)
        have "slot_p (a ! i) \<noteq> slot_p (a ! j)"
          using ds that by simp
        then have "q' \<noteq> Block b" using qw(1) j(1) b(1) by simp
        then show ?thesis using j that by auto
      qed
      moreover have "slot_p (?a ! j) \<noteq> slot_p (?a ! k)"
        if "Suc i \<le> j" "j < k" "k < N" for j k
        using ds that by simp
      ultimately show ?thesis
        unfolding destroy_ready_def using ar np by simp
    qed
    ultimately show ?thesis by blast
  qed
qed

lemma destroy_loop_ready:
  assumes "destroy_ready N i s" "i \<le> N"
  shows "\<exists>s'. destroy_loop i s = Inr s'"
  using assms
proof (induction "N - i" arbitrary: i s)
  case 0
  then have "\<not> int i < n_pointers s"
    by (simp add: destroy_ready_def)
  then show ?case by (simp add: destroy_loop.simps)
next
  case (Suc k)
  then have lt: "i < N" by simp
  with Suc.prems(1) obtain s1 where s1: "destroy_slot i s = Inr s1" "destroy_ready N (Suc i) s1"
    using destroy_slot_ready by blast
  have "\<exists>s'. destroy_loop (Suc i) s1 = Inr s'"
    using Suc.hyps(2) lt s1(2) by (intro Suc.hyps(1)) simp_all
  moreover have "int i < n_pointers s"
    using Suc.prems(1) lt by (simp add: destroy_ready_def)
  ultimately show ?case
    using s1(1) by (subst destroy_loop.simps) simp
qed

lemma destroy_all_winv:
  assumes "winv N s"
  shows "\<exists>s1. cs_field_pointer_destroy_all s = Inr s1 \<and> field_pointer s1 = None \<and>
     sublist_size s1 = None \<and> cs_glob_field_pointers s1 = No_array"
proof -
  from assms have "destroy_ready N 0 s" by (rule winv_destroy_ready)
  then obtain s' where "destroy_loop 0 s = Inr s'"
    using destroy_loop_ready by blast
  then show ?thesis
    by (simp add: cs_field_pointer_destroy_all_def ebind_def)
qed

text \<open>Unfolding these evaluates the calls on a concrete state.\<close>

lemmas exec_defs =
  cs_field_pointer_map_def cs_field_pointer_map_indexed_def cs_field_pointer_ensure_init_def
  cs_field_pointer_destroy_all_def init_pointers_eq grow_sublist_def
  ebind_def read_size_def write_size_def read_f_def write_f_def read_p_def write_p_def
  store_p_def load_p_def cs_malloc_block_def cs_realloc_block_def cs_free_block_def
  destroy_slot_def free_p_def initial_state_def INT_MAX_def fresh_slot_def
  null_loop.simps destroy_loop.simps CS_F_def CS_FI_def

subsection \<open>The representation invariant for sizes that fit a \<^verbatim>\<open>short int\<close>\<close>

lemma tagged_frame:
  assumes "tagged s a z i" "a' ! i = a ! i" "z' ! i = z ! i"
    "\<And>b. slot_p (a ! i) = Val (Block b) \<Longrightarrow> heap s' b = heap s b"
  shows "tagged s' a' z' i"
proof -
  from assms(1) obtain q w where
    sl: "slot_p (a ! i) = Val q" "z ! i = Val w" "0 \<le> sint w"
    and q: "q = AddrF i \<and> sint w \<le> 1 \<or>
         (\<exists>b blk. q = Block b \<and> heap s b = Some blk \<and> 1 < sint w \<and>
            int (length blk) = sint w)"
    unfolding tagged_def by blast
  from q show ?thesis
  proof
    assume "q = AddrF i \<and> sint w \<le> 1"
    then show ?thesis
      unfolding tagged_def using sl assms(2,3) by simp
  next
    assume "\<exists>b blk. q = Block b \<and> heap s b = Some blk \<and> 1 < sint w \<and>
            int (length blk) = sint w"
    then obtain b blk where b: "q = Block b" "heap s b = Some blk" "1 < sint w"
      "int (length blk) = sint w" by blast
    have "slot_p (a ! i) = Val (Block b)" using sl(1) by (simp add: b(1))
    then have "heap s' b = Some blk" using assms(4) b(2) by simp
    then show ?thesis
      unfolding tagged_def using sl assms(2,3) b by simp
  qed
qed

lemma tagged_block:
  assumes "slot_p (a ! i) = Val (Block b)" "z ! i = Val w"
    "heap s b = Some blk" "1 < sint w" "int (length blk) = sint w"
  shows "tagged s a z i"
  unfolding tagged_def using assms by simp

lemma tagged_inline:
  assumes "slot_p (a ! i) = Val (AddrF i)" "z ! i = Val w" "0 \<le> sint w" "sint w \<le> 1"
  shows "tagged s a z i"
  unfolding tagged_def using assms by simp

lemma tagged_small:
  assumes "tagged s a z i" "z ! i = Val w" "sint w \<le> 1"
  shows "slot_p (a ! i) = Val (AddrF i)"
  using assms unfolding tagged_def by auto

lemma tagged_large:
  assumes "tagged s a z i" "z ! i = Val w" "slot_p (a ! i) = Val (Block b)"
  shows "1 < sint w \<and> (\<exists>blk. heap s b = Some blk \<and> int (length blk) = sint w)"
  using assms unfolding tagged_def by auto

lemma sinv_map_indexed:
  assumes inv: "sinv N s" and ok: "cs_field_pointer_map_indexed N e index fp s = Inr s'"
    and small: "index < SHRT_MAX"
  shows "sinv N s'"
proof -
  from inv have w: "winv N s" by (simp add: sinv_def)
  then have w': "winv N s'" using ok by (rule winv_map_indexed)
  from inv w obtain a z where ar: "field_pointer s = Some a" "sublist_size s = Some z"
    "length a = N" "length z = N" and wf: "\<forall>i<N. wf_slot s a z i"
    and tg: "\<forall>i<N. tagged s a z i"
    and dist: "distinct (map slot_p a)"
    and np: "n_pointers s = int N"
    unfolding winv_def sinv_def by auto
  have sm: "sint (word_of_int (index + 1) :: 16 word) = index + 1" if "0 \<le> index"
    using that small by (intro sint_short_small) (simp_all add: SHRT_MAX_def)
  from ar np wf ok have "\<exists>a' z'. field_pointer s' = Some a' \<and> sublist_size s' = Some z' \<and>
      (\<forall>i<N. tagged s' a' z' i)"
  proof (cases rule: map_indexed_shape)
    case (direct v q w)
    let ?a = "a[e := \<lparr>slot_f = Val fp, slot_p = Val q\<rparr>]"
    let ?z = "z[e := Val 1]"
    from tg direct(1) have te: "tagged s a z e" by simp
    have qe: "slot_p (a ! e) = Val (AddrF e)"
      using te direct(3,5) by (rule tagged_small)
    have "tagged s' ?a ?z i" if "i < N" for i
    proof (cases "i = e")
      case True
      show ?thesis
        using True qe direct(1,2) ar(3,4)
        by (intro tagged_inline[where w = 1]) simp_all
    next
      case False
      from tg that have ti: "tagged s a z i" by simp
      show ?thesis
        by (rule tagged_frame[OF ti]) (use False direct(6) in simp_all)
    qed
    then show ?thesis using direct(6) by simp
  next
    case (grow_inline v w)
    let ?a = "a[e := \<lparr>slot_f = Val v, slot_p = Val (Block (brk s))\<rparr>]"
    let ?z = "z[e := Val (word_of_int (index + 1))]"
    let ?B = "(grown_block (replicate (nat (index + 1)) Indet) v (sint w) index)[nat index := Val fp]"
    have len: "length ?B = nat (index + 1)"
      using grow_inline by (intro length_final_block) simp_all
    have "tagged s' ?a ?z i" if "i < N" for i
    proof (cases "i = e")
      case True
      show ?thesis
        using True grow_inline(1,4,8) ar(3,4) len sm
        by (intro tagged_block[where b = "brk s" and blk = ?B and w = "word_of_int (index + 1)"])
           simp_all
    next
      case False
      from tg that have ti: "tagged s a z i" by simp
      from wf that have wi: "wf_slot s a z i" by simp
      have hp: "heap s' b = heap s b" if "slot_p (a ! i) = Val (Block b)" for b
        using wf_slot_ptr[OF wi] that grow_inline(8) by auto
      show ?thesis
        by (rule tagged_frame[OF ti _ _ hp]) (use False grow_inline(8) in simp_all)
    qed
    then show ?thesis using grow_inline(8) by simp
  next
    case (grow_block v w b blk)
    let ?z = "z[e := Val (word_of_int (index + 1))]"
    let ?B = "(grown_block (realloc_cells blk (index + 1)) v (sint w) index)[nat index := Val fp]"
    have len: "length ?B = nat (index + 1)"
      using grow_block by (intro length_final_block) simp_all
    from tg grow_block(1) have te: "tagged s a z e" by simp
    have pe: "slot_p (a ! e) = Val (Block b)"
      using grow_block(2) by simp
    have big: "1 < sint w"
      using tagged_large[OF te grow_block(3) pe] by simp
    have "tagged s' a ?z i" if "i < N" for i
    proof (cases "i = e")
      case True
      show ?thesis
        using True grow_block(1,4,6,10) pe ar(3,4) len sm big
        by (intro tagged_block[where b = b and blk = ?B and w = "word_of_int (index + 1)"])
           simp_all
    next
      case False
      from tg that have ti: "tagged s a z i" by simp
      have ne: "slot_p (a ! i) \<noteq> slot_p (a ! e)"
        using dist that grow_block(1) ar(3) False by (intro distinct_ptr_neq) simp_all
      have hp: "heap s' b' = heap s b'" if "slot_p (a ! i) = Val (Block b')" for b'
        using ne that grow_block(2,10) by auto
      show ?thesis
        by (rule tagged_frame[OF ti _ _ hp]) (use False grow_block(10) in simp_all)
    qed
    then show ?thesis using grow_block(10) ar by simp
  next
    case (overwrite v w b blk)
    from tg overwrite(1) have te: "tagged s a z e" by simp
    have pe: "slot_p (a ! e) = Val (Block b)"
      using overwrite(2) by simp
    have big: "int (length blk) = sint w"
      using tagged_large[OF te overwrite(3) pe] overwrite(7) by simp
    have "tagged s' a z i" if "i < N" for i
    proof (cases "i = e")
      case True
      show ?thesis
        using True overwrite(3,6,9) pe big
        by (intro tagged_block[where b = b and blk = "blk[nat index := Val fp]" and w = w])
           simp_all
    next
      case False
      from tg that have ti: "tagged s a z i" by simp
      have ne: "slot_p (a ! i) \<noteq> slot_p (a ! e)"
        using dist that overwrite(1) ar(3) False by (intro distinct_ptr_neq) simp_all
      have hp: "heap s' b' = heap s b'" if "slot_p (a ! i) = Val (Block b')" for b'
        using ne that overwrite(2,9) by auto
      show ?thesis
        by (rule tagged_frame[OF ti _ _ hp]) (use False overwrite(9) in simp_all)
    qed
    then show ?thesis using overwrite(9) ar by simp
  qed
  with w' show ?thesis by (simp add: sinv_def)
qed

text \<open>The invariant along calls whose indices are below \<^verbatim>\<open>SHRT_MAX\<close>.\<close>

lemma sinv_fresh: "sinv N (fresh_registry N s)"
proof -
  have "tagged (fresh_registry N s) (map fresh_slot [0..<N]) (replicate N (Val 0)) i"
    if "i < N" for i
    using that by (intro tagged_inline[where w = 0]) (simp_all add: fresh_slot_def)
  then show ?thesis
    unfolding sinv_def using winv_fresh[of N s] by (simp add: fresh_registry_def)
qed

lemma sinv_map_indexed_any:
  assumes "field_pointer s \<noteq> None \<longrightarrow> sinv N s"
    "cs_field_pointer_map_indexed N e index fp s = Inr s'" "index < SHRT_MAX"
  shows "sinv N s'"
proof (cases "field_pointer s = None")
  case True
  with assms(2) have "cs_field_pointer_map_indexed N e index fp (fresh_registry N s) = Inr s'"
    by (simp add: map_indexed_lazy')
  with sinv_fresh show ?thesis using assms(3) by (rule sinv_map_indexed)
next
  case False
  with assms(1) have "sinv N s" by simp
  then show ?thesis using assms(2,3) by (rule sinv_map_indexed)
qed

lemma sinv_exec_op:
  assumes "field_pointer s \<noteq> None \<longrightarrow> sinv N s" "exec_op N x s = Inr s'" "small_index x"
  shows "field_pointer s' \<noteq> None \<longrightarrow> sinv N s'"
proof (cases x)
  case Ensure_init
  with assms show ?thesis
    by (auto simp: ensure_init_eq sinv_fresh)
next
  case Destroy_all
  with assms show ?thesis by (simp add: destroy_all_down)
next
  case (Map e fp)
  with assms(2) have "cs_field_pointer_map_indexed N e 0 fp s = Inr s'"
    by (simp add: cs_field_pointer_map_def)
  with assms(1) have "sinv N s'"
    by (rule sinv_map_indexed_any) (simp add: SHRT_MAX_def)
  then show ?thesis by simp
next
  case (Map_indexed e index fp)
  with assms(2,3) have "cs_field_pointer_map_indexed N e index fp s = Inr s'" "index < SHRT_MAX"
    by simp_all
  with assms(1) have "sinv N s'"
    by (rule sinv_map_indexed_any)
  then show ?thesis by simp
qed

lemma sinv_run:
  assumes "field_pointer s \<noteq> None \<longrightarrow> sinv N s" "run N ops s = Inr s'"
    "list_all small_index ops"
  shows "field_pointer s' \<noteq> None \<longrightarrow> sinv N s'"
  using assms
proof (induction ops arbitrary: s)
  case Nil
  then show ?case by simp
next
  case (Cons x xs)
  from Cons.prems(2) obtain s1 where s1: "exec_op N x s = Inr s1" "run N xs s1 = Inr s'"
    by (auto split: sum.splits)
  from Cons.prems(3) have sm: "small_index x" "list_all small_index xs" by simp_all
  from Cons.prems(1) s1(1) sm(1) have "field_pointer s1 \<noteq> None \<longrightarrow> sinv N s1"
    by (rule sinv_exec_op)
  then show ?case using s1(2) sm(2) by (rule Cons.IH)
qed

lemma sinv_reachable:
  assumes "run N ops initial_state = Inr s" "list_all small_index ops"
    "field_pointer s \<noteq> None"
  shows "sinv N s"
proof -
  have "field_pointer initial_state \<noteq> None \<longrightarrow> sinv N initial_state"
    by (simp add: initial_state_def)
  from sinv_run[OF this assms(1,2)] assms(3) show ?thesis by simp
qed

subsection \<open>The contents of a grown block\<close>

lemma final_block_index:
  assumes "0 \<le> sz" "sz \<le> index" "length B = nat (index + 1)"
  shows "(grown_block B v sz index)[nat index := Val fp] ! nat index = Val fp"
proof -
  have "nat index < length (grown_block B v sz index)"
    using assms by (simp add: length_grown_block)
  then show ?thesis by simp
qed

lemma final_block_null:
  assumes "0 \<le> sz" "sz \<le> i" "i < index" "length B = nat (index + 1)"
  shows "(grown_block B v sz index)[nat index := Val fp] ! nat i = Val Nullptr"
proof -
  have ne: "nat index \<noteq> nat i" using assms by linarith
  have "length (take (nat sz) (B[0 := Val v])) = nat sz"
    using assms by simp
  then have "grown_block B v sz index ! nat i
      = replicate (nat (index + 1 - sz)) (Val Nullptr) ! (nat i - nat sz)"
    using assms unfolding grown_block_def by (simp add: nth_append)
  also have "\<dots> = Val Nullptr"
    using assms by (intro nth_replicate) linarith
  finally show ?thesis using ne by simp
qed

lemma final_block_kept:
  assumes "0 < i" "i < sz" "sz \<le> index" "length B = nat (index + 1)"
  shows "(grown_block B v sz index)[nat index := Val fp] ! nat i = B ! nat i"
proof -
  have ne: "nat index \<noteq> nat i" "nat i \<noteq> 0" using assms by linarith+
  have "nat i < length (take (nat sz) (B[0 := Val v]))"
    using assms by simp
  then have "grown_block B v sz index ! nat i = take (nat sz) (B[0 := Val v]) ! nat i"
    unfolding grown_block_def by (simp add: nth_append)
  also have "\<dots> = B ! nat i"
    using assms ne by simp
  finally show ?thesis using ne by simp
qed

lemma final_block_first:
  assumes "0 < sz" "sz \<le> index" "length B = nat (index + 1)"
  shows "(grown_block B v sz index)[nat index := Val fp] ! 0 = Val v"
proof -
  have ne: "nat index \<noteq> 0" using assms by linarith
  have "0 < length (take (nat sz) (B[0 := Val v]))"
    using assms by simp
  then have "grown_block B v sz index ! 0 = take (nat sz) (B[0 := Val v]) ! 0"
    unfolding grown_block_def by (simp add: nth_append)
  also have "\<dots> = Val v"
    using assms by simp
  finally show ?thesis using ne by simp
qed

lemma final_block_first_unset:
  assumes "0 < index" "length B = nat (index + 1)"
  shows "(grown_block B v 0 index)[nat index := Val fp] ! 0 = Val Nullptr"
  using final_block_null[of 0 0 index B v fp] assms by simp

lemma realloc_cells_nth:
  "i < length blk \<Longrightarrow> i < nat n \<Longrightarrow> realloc_cells blk n ! i = blk ! i"
  by (simp add: realloc_cells_def nth_append)

lemma load_p_block:
  assumes "read_p s e = Inr (Block b)" "heap s b = Some blk" "0 \<le> i" "i < int (length blk)"
  shows "load_p s e i = (case blk ! nat i of Indet \<Rightarrow> Inl Indeterminate_read | Val v \<Rightarrow> Inr v)"
  using assms by (simp add: load_p_def ebind_def)

subsection \<open>Splitting a sequence of calls\<close>

lemma run_append: "run N (xs @ ys) s = ebind (run N xs s) (run N ys)"
  by (induction xs arbitrary: s) (simp_all add: ebind_def split: sum.splits)

lemma run_snoc: "run N (xs @ [x]) s = ebind (run N xs s) (exec_op N x)"
  by (simp add: run_append ebind_def split: sum.splits)

subsection \<open>Mapping at index 0\<close>

lemma map_direct_fresh:
  assumes "e < N"
  shows "\<exists>s'. cs_field_pointer_map_indexed N e 0 h (fresh_registry N s) = Inr s' \<and>
     read_f s' e = Inr h \<and> read_size s' e = Inr 1"
proof -
  have "cs_field_pointer_map_indexed N e 0 h (fresh_registry N s) =
    Inr ((fresh_registry N s)\<lparr>field_pointer :=
            Some ((map fresh_slot [0..<N])[e := ((map fresh_slot [0..<N]) ! e)\<lparr>slot_f := Val h\<rparr>]),
           sublist_size := Some ((replicate N (Val 0))[e := Val 1])\<rparr>)"
    using assms
    by (intro map_indexed_direct[where w = 0]) (simp_all add: fresh_registry_def)
  then show ?thesis
    using assms by (simp add: read_f_def read_size_def)
qed

lemma map_direct_winv:
  assumes "winv N s" "e < N" "\<not> expanded s e"
  shows "\<exists>s'. cs_field_pointer_map_indexed N e 0 h s = Inr s' \<and>
     read_f s' e = Inr h \<and> read_size s' e = Inr 1"
proof -
  from assms(1) obtain a z where ar: "field_pointer s = Some a" "sublist_size s = Some z"
    "length a = N" "length z = N" and wf: "\<forall>i<N. wf_slot s a z i"
    and np: "n_pointers s = int N"
    unfolding winv_def by blast
  from wf assms(2) have "wf_slot s a z e" by simp
  then obtain w where w: "z ! e = Val w"
    unfolding wf_slot_def by blast
  have le: "sint w \<le> 1"
    using assms(3) ar w assms(2) by (simp add: expanded_def read_size_def)
  have "cs_field_pointer_map_indexed N e 0 h s =
    Inr (s\<lparr>field_pointer := Some (a[e := (a ! e)\<lparr>slot_f := Val h\<rparr>]),
           sublist_size := Some (z[e := Val 1])\<rparr>)"
    using ar assms(2) np w le by (intro map_indexed_direct) simp_all
  then show ?thesis
    using ar assms(2) by (simp add: read_f_def read_size_def)
qed

lemma map_expanded_winv:
  assumes "winv N s" "e < N" "expanded s e"
  shows "\<exists>s' b blk. cs_field_pointer_map_indexed N e 0 h s = Inr s' \<and>
     read_p s e = Inr (Block b) \<and> heap s b = Some blk \<and>
     s' = s\<lparr>heap := (heap s)(b \<mapsto> blk[0 := Val h])\<rparr> \<and> blk \<noteq> []"
proof -
  from assms(1) obtain a z where ar: "field_pointer s = Some a" "sublist_size s = Some z"
    "length a = N" "length z = N" and wf: "\<forall>i<N. wf_slot s a z i"
    and np: "n_pointers s = int N"
    unfolding winv_def by blast
  from wf assms(2) have "wf_slot s a z e" by simp
  then obtain v q w where sl: "a ! e = \<lparr>slot_f = Val v, slot_p = Val q\<rparr>" "z ! e = Val w"
    and q: "q = AddrF e \<and> sint w \<le> 1 \<or>
         (\<exists>b blk. q = Block b \<and> b < brk s \<and> heap s b = Some blk \<and>
            blk \<noteq> [] \<and> sint w \<le> int (length blk))"
    unfolding wf_slot_def by blast
  have big: "1 < sint w"
    using assms(3) ar sl assms(2) by (simp add: expanded_def read_size_def)
  with q obtain b blk where b: "q = Block b" "heap s b = Some blk" "blk \<noteq> []"
    by auto
  have sp: "slot_p (a ! e) = Val (Block b)"
    using sl(1) by (simp add: b(1))
  have "cs_field_pointer_map_indexed N e 0 h s =
    Inr (s\<lparr>heap := (heap s)(b \<mapsto> blk[nat 0 := Val h])\<rparr>)"
    using ar assms(2) np sl(2) sp b big by (intro map_indexed_overwrite) simp_all
  moreover have "read_p s e = Inr (Block b)"
    using ar assms(2) sp by (simp add: read_p_def)
  ultimately show ?thesis using b by simp
qed

subsection \<open>A size that does not fit the \<^verbatim>\<open>short int\<close>\<close>

text \<open>
  The first call of the program is \<^verbatim>\<open>cs_field_pointer_map_indexed(0, 32767, fp)\<close>, with one
  enumerator: the block has 32768 elements and the stored size is \<open>-32768\<close>.
\<close>

lemma run_wrap:
  "\<exists>s F. run 1 [Map_indexed 0 32767 fp] initial_state = Inr s \<and>
     n_pointers s = 1 \<and> cs_glob_field_pointers s = Field_pointer_array \<and>
     field_pointer s = Some [\<lparr>slot_f = Val Nullptr, slot_p = Val (Block 0)\<rparr>] \<and>
     sublist_size s = Some [Val (word_of_int 32768)] \<and>
     heap s 0 = Some F \<and> length F = 32768 \<and> F ! 0 = Val Nullptr"
proof -
  let ?t = "fresh_registry 1 initial_state"
  let ?B = "replicate (nat (32767 + 1)) (Indet :: fptr cell)"
  let ?F = "(grown_block ?B Nullptr (sint (0 :: 16 word)) 32767)[nat 32767 := Val fp]"
  have t: "field_pointer ?t = Some [fresh_slot 0]" "sublist_size ?t = Some [Val 0]"
    "n_pointers ?t = 1" "brk ?t = 0" "cs_glob_field_pointers ?t = Field_pointer_array"
    by (simp_all add: fresh_registry_def initial_state_def)
  have g: "cs_field_pointer_map_indexed 1 0 32767 fp ?t =
      Inr (?t\<lparr>field_pointer := Some ([fresh_slot 0]
              [0 := \<lparr>slot_f = Val Nullptr, slot_p = Val (Block (brk ?t))\<rparr>]),
           sublist_size := Some ([Val 0][0 := Val (word_of_int (32767 + 1))]),
           heap := (heap ?t)(brk ?t \<mapsto> ?F),
           brk := Suc (brk ?t)\<rparr>)"
    using t(3) by (intro map_indexed_grow_inline[OF t(1,2)]) (simp_all add: INT_MAX_def fresh_slot_def)
  have lz: "cs_field_pointer_map_indexed 1 0 32767 fp initial_state =
      cs_field_pointer_map_indexed 1 0 32767 fp ?t"
    by (intro map_indexed_lazy') (simp add: initial_state_def)
  let ?S = "?t\<lparr>field_pointer := Some ([fresh_slot 0]
              [0 := \<lparr>slot_f = Val Nullptr, slot_p = Val (Block (brk ?t))\<rparr>]),
           sublist_size := Some ([Val 0][0 := Val (word_of_int (32767 + 1))]),
           heap := (heap ?t)(brk ?t \<mapsto> ?F),
           brk := Suc (brk ?t)\<rparr>"
  from g lz have r: "run 1 [Map_indexed 0 32767 fp] initial_state = Inr ?S"
    by simp
  have lF: "length ?F = nat (32767 + 1)"
    by (intro length_final_block) simp_all
  have F0: "?F ! 0 = Val Nullptr"
    using final_block_first_unset[of 32767 ?B Nullptr fp] by simp
  show ?thesis
    by (rule exI[of _ ?S], rule exI[of _ ?F]) (use r lF F0 t in simp)
qed

lemma sint_wrapped [simp]: "sint (word_of_int 32768 :: 16 word) = - 32768"
  by simp

text \<open>
  A call other than the teardown, made in an initialised state, is the identity or a
  call of \<^verbatim>\<open>cs_field_pointer_map_indexed\<close>.
\<close>

lemma exec_op_initialised:
  assumes "winv N s" "exec_op N x s = Inr s'" "no_destroy x"
  obtains (same) "s' = s"
  | (mapped) e index fp where "cs_field_pointer_map_indexed N e index fp s = Inr s'"
      "small_index x \<longrightarrow> index < SHRT_MAX"
proof (cases x)
  case Ensure_init
  with assms(1,2) have "s' = s"
    by (auto simp: ensure_init_eq dest: winv_initialised)
  then show ?thesis by (rule same)
next
  case Destroy_all
  with assms(3) show ?thesis by simp
next
  case (Map e fp)
  with assms(2) have "cs_field_pointer_map_indexed N e 0 fp s = Inr s'"
    by (simp add: cs_field_pointer_map_def)
  then show ?thesis by (rule mapped) (simp add: SHRT_MAX_def)
next
  case (Map_indexed e index fp)
  with assms(2) have "cs_field_pointer_map_indexed N e index fp s = Inr s'"
    by simp
  then show ?thesis by (rule mapped) (simp add: Map_indexed)
qed

section \<open>The properties of the specification\<close>

subsection \<open>Growing an expanded slot\<close>

text \<open>
  C1, as the code has it: in every initialised state that a sequence of calls reaches
  from the state at program start, for a valid enumerator \<open>e\<close> whose size \<open>w\<close> is above
  1, the call \<^verbatim>\<open>cs_field_pointer_map_indexed(e, index, h)\<close> with \<open>w \<le> index < 32767\<close>
  returns and grows the block that \<^verbatim>\<open>p\<close> addresses: the positions from 1 to \<open>w - 1\<close>
  read as before the call, the positions from \<open>w\<close> to \<open>index - 1\<close> hold null, position
  \<open>index\<close> holds \<open>h\<close> and the size is \<open>index + 1\<close>. Position 0 is left out of the
  statement.
\<close>

theorem map_indexed_grows_expanded:
  assumes "run N ops initial_state = Inr s" "field_pointer s \<noteq> None" "e < N"
    "read_size s e = Inr w" "1 < w" "w \<le> index" "index < SHRT_MAX"
  shows "\<exists>s'. cs_field_pointer_map_indexed N e index h s = Inr s' \<and>
     read_p s' e = read_p s e \<and>
     (\<forall>i. 0 < i \<and> i < w \<longrightarrow> load_p s' e i = load_p s e i) \<and>
     (\<forall>i. w \<le> i \<and> i < index \<longrightarrow> load_p s' e i = Inr Nullptr) \<and>
     load_p s' e index = Inr h \<and>
     read_size s' e = Inr (index + 1)"
proof -
  from assms(1,2) have "winv N s" by (rule winv_reachable)
  then obtain a z where ar: "field_pointer s = Some a" "sublist_size s = Some z"
    "length a = N" "length z = N" and wf: "\<forall>i<N. wf_slot s a z i"
    and np: "n_pointers s = int N"
    unfolding winv_def by blast
  from wf assms(3) have "wf_slot s a z e" by simp
  then obtain v q w' where sl: "a ! e = \<lparr>slot_f = Val v, slot_p = Val q\<rparr>" "z ! e = Val w'"
    and q: "q = AddrF e \<and> sint w' \<le> 1 \<or>
         (\<exists>b blk. q = Block b \<and> b < brk s \<and> heap s b = Some blk \<and>
            blk \<noteq> [] \<and> sint w' \<le> int (length blk))"
    unfolding wf_slot_def by blast
  have w: "sint w' = w"
    using assms(4) ar sl assms(3) by (simp add: read_size_def)
  with q assms(5) obtain b blk where b: "q = Block b" "heap s b = Some blk"
    "w \<le> int (length blk)" by auto
  have sl': "a ! e = \<lparr>slot_f = Val v, slot_p = Val (Block b)\<rparr>"
    using sl(1) by (simp add: b(1))
  have ea: "e < length a" "e < length z" "int e < n_pointers s"
    using assms(3) ar np by simp_all
  have im: "index < INT_MAX"
    using assms(7) by (simp add: SHRT_MAX_def INT_MAX_def)
  have pos: "0 < index" using assms(5,6) by simp
  have sm: "sint (word_of_int (index + 1) :: 16 word) = index + 1"
    using pos assms(7) by (intro sint_short_small) (simp_all add: SHRT_MAX_def)
  define B where "B = realloc_cells blk (index + 1)"
  define F where "F = (grown_block B v w index)[nat index := Val h]"
  define s' where "s' = s\<lparr>sublist_size := Some (z[e := Val (word_of_int (index + 1))]),
           heap := (heap s)(b \<mapsto> F)\<rparr>"
  have lB: "length B = nat (index + 1)"
    by (simp add: B_def)
  have ok: "cs_field_pointer_map_indexed N e index h s = Inr s'"
    unfolding s'_def F_def B_def w[symmetric]
    using ar(1,2) ea sl' sl(2) b(2) assms(5,6) im w
    by (intro map_indexed_grow_block) simp_all
  have rp: "read_p s e = Inr (Block b)" "read_p s' e = Inr (Block b)"
    using ar ea sl' by (simp_all add: read_p_def s'_def)
  have hp: "heap s' b = Some F"
    by (simp add: s'_def)
  have rs: "read_size s' e = Inr (index + 1)"
    using ar ea sm by (simp add: read_size_def s'_def)
  have lF: "length F = nat (index + 1)"
    unfolding F_def using assms(5,6) lB by (intro length_final_block) simp_all
  have ld': "load_p s' e i = (case F ! nat i of Indet \<Rightarrow> Inl Indeterminate_read | Val x \<Rightarrow> Inr x)"
    if "0 \<le> i" "i \<le> index" for i
    using rp(2) hp that lF by (intro load_p_block) simp_all
  have ld: "load_p s e i = (case blk ! nat i of Indet \<Rightarrow> Inl Indeterminate_read | Val x \<Rightarrow> Inr x)"
    if "0 \<le> i" "i < w" for i
    using rp(1) b(2,3) that by (intro load_p_block) simp_all
  have kept: "load_p s' e i = load_p s e i" if "0 < i" "i < w" for i
  proof -
    have "F ! nat i = B ! nat i"
      unfolding F_def using that assms(6) lB by (intro final_block_kept) simp_all
    also have "\<dots> = blk ! nat i"
      unfolding B_def using that b(3) assms(6) by (intro realloc_cells_nth) linarith+
    finally show ?thesis
      using ld'[of i] ld[of i] that assms(6) by simp
  qed
  have nulls: "load_p s' e i = Inr Nullptr" if "w \<le> i" "i < index" for i
  proof -
    have "F ! nat i = Val Nullptr"
      unfolding F_def using that assms(5) lB by (intro final_block_null) simp_all
    then show ?thesis using ld'[of i] that assms(5) by simp
  qed
  have "F ! nat index = Val h"
    unfolding F_def using assms(5,6) lB by (intro final_block_index) simp_all
  then have last: "load_p s' e index = Inr h"
    using ld'[of index] pos by simp
  from ok rp rs kept nulls last show ?thesis by auto
qed

theorem map_indexed_grows_expanded_witness:
  "\<exists>s s'. run 2 [Map_indexed 1 2 (Fld 7), Map_indexed 1 1 (Fld 8)] initial_state = Inr s \<and>
     field_pointer s \<noteq> None \<and> read_size s 1 = Inr 3 \<and>
     load_p s 1 1 = Inr (Fld 8) \<and> load_p s 1 2 = Inr (Fld 7) \<and>
     cs_field_pointer_map_indexed 2 1 5 (Fld 9) s = Inr s' \<and>
     read_p s' 1 = read_p s 1 \<and>
     load_p s' 1 1 = Inr (Fld 8) \<and> load_p s' 1 2 = Inr (Fld 7) \<and>
     load_p s' 1 3 = Inr Nullptr \<and> load_p s' 1 4 = Inr Nullptr \<and>
     load_p s' 1 5 = Inr (Fld 9) \<and>
     read_size s' 1 = Inr 6"
proof -
  obtain s where s: "run 2 [Map_indexed 1 2 (Fld 7), Map_indexed 1 1 (Fld 8)] initial_state = Inr s"
    "field_pointer s \<noteq> None" "read_size s 1 = Inr 3"
    "load_p s 1 1 = Inr (Fld 8)" "load_p s 1 2 = Inr (Fld 7)"
    by (simp add: exec_defs)
  have "(1::nat) < 2" "(1::int) < 3" "(3::int) \<le> 5" "(5::int) < SHRT_MAX"
    by (simp_all add: SHRT_MAX_def)
  from map_indexed_grows_expanded[OF s(1,2) this(1) s(3) this(2,3,4), of "Fld 9"]
  obtain s' where s': "cs_field_pointer_map_indexed 2 1 5 (Fld 9) s = Inr s'"
     "read_p s' 1 = read_p s 1"
     "\<forall>i. 0 < i \<and> i < 3 \<longrightarrow> load_p s' 1 i = load_p s 1 i"
     "\<forall>i. 3 \<le> i \<and> i < 5 \<longrightarrow> load_p s' 1 i = Inr Nullptr"
     "load_p s' 1 5 = Inr (Fld 9)" "read_size s' 1 = Inr (5 + 1)"
    by blast
  from s'(3) s(4,5) have "load_p s' 1 1 = Inr (Fld 8)" "load_p s' 1 2 = Inr (Fld 7)"
    by simp_all
  moreover from s'(4) have "load_p s' 1 3 = Inr Nullptr" "load_p s' 1 4 = Inr Nullptr"
    by simp_all
  ultimately show ?thesis using s s'(1,2,5,6) by auto
qed

text \<open>
  C1, as the specification states it, fails twice. Position 0 does not keep its value: after
  \<^verbatim>\<open>map_indexed(0, 1, 1)\<close> and \<^verbatim>\<open>map_indexed(0, 0, 2)\<close> the slot is expanded with field 2
  at position 0, and \<^verbatim>\<open>map_indexed(0, 2, 3)\<close> puts the member \<^verbatim>\<open>f\<close>, still null, back
  there (\<^verbatim>\<open>_field_pointer[e].p[0] = _field_pointer[e].f\<close> runs after the reallocation as
  well). And at \<open>index = 32767\<close> the stored size is \<open>-32768\<close>.
\<close>

theorem map_indexed_grows_expanded_counterexample:
  "size_after 1 [Map_indexed 0 1 (Fld 1), Map_indexed 0 0 (Fld 2)] 0 = Inr 2 \<and>
   load_after 1 [Map_indexed 0 1 (Fld 1), Map_indexed 0 0 (Fld 2)] 0 0 = Inr (Fld 2) \<and>
   load_after 1 [Map_indexed 0 1 (Fld 1), Map_indexed 0 0 (Fld 2),
                   Map_indexed 0 2 (Fld 3)] 0 0 = Inr Nullptr \<and>
   size_after 1 [Map_indexed 0 1 (Fld 1), Map_indexed 0 32767 (Fld 3)] 0 = Inr (- 32768)"
proof -
  have small: "size_after 1 [Map_indexed 0 1 (Fld 1), Map_indexed 0 0 (Fld 2)] 0 = Inr 2"
    "load_after 1 [Map_indexed 0 1 (Fld 1), Map_indexed 0 0 (Fld 2)] 0 0 = Inr (Fld 2)"
    "load_after 1 [Map_indexed 0 1 (Fld 1), Map_indexed 0 0 (Fld 2),
                   Map_indexed 0 2 (Fld 3)] 0 0 = Inr Nullptr"
    by (simp_all add: size_after_def load_after_def exec_defs)
  obtain s blk where s: "run 1 [Map_indexed 0 1 (Fld 1)] initial_state = Inr s"
    "field_pointer s = Some [\<lparr>slot_f = Val Nullptr, slot_p = Val (Block 0)\<rparr>]"
    "sublist_size s = Some [Val 2]" "n_pointers s = 1"
    "heap s 0 = Some blk"
    by (simp add: exec_defs)
  have g: "cs_field_pointer_map_indexed 1 0 32767 (Fld 3) s =
      Inr (s\<lparr>sublist_size := Some ([Val 2][0 := Val (word_of_int (32767 + 1))]),
           heap := (heap s)(0 \<mapsto>
              (grown_block (realloc_cells blk (32767 + 1)) Nullptr
                 (sint (2 :: 16 word)) 32767)
                [nat 32767 := Val (Fld 3)])\<rparr>)"
    using s(4,5) by (intro map_indexed_grow_block[OF s(2,3)]) (simp_all add: INT_MAX_def)
  have "run 1 [Map_indexed 0 1 (Fld 1), Map_indexed 0 32767 (Fld 3)] initial_state
      = ebind (run 1 [Map_indexed 0 1 (Fld 1)] initial_state)
          (exec_op 1 (Map_indexed 0 32767 (Fld 3)))"
    using run_snoc[of 1 "[Map_indexed 0 1 (Fld 1)]" "Map_indexed 0 32767 (Fld 3)" initial_state]
    by simp
  then have "size_after 1 [Map_indexed 0 1 (Fld 1), Map_indexed 0 32767 (Fld 3)] 0
      = Inr (- 32768)"
    using s(1) g by (simp add: size_after_def ebind_def read_size_def)
  with small show ?thesis by simp
qed

subsection \<open>Direct mapping\<close>

text \<open>
  C2, as the code has it: in every state that a sequence of calls reaches from the state
  at program start and for every valid enumerator \<open>e\<close>, \<^verbatim>\<open>cs_field_pointer_map(e, h)\<close>
  returns. When slot \<open>e\<close> is not expanded (its size is at most 1, or the registry is not
  initialised yet), the call sets the member \<^verbatim>\<open>f\<close> to \<open>h\<close> and the size to 1. When the
  slot is expanded, the size stays as it is and \<open>h\<close> is stored at position 0 of the
  block.
\<close>

theorem map_sets_direct_value:
  assumes "run N ops initial_state = Inr s" "e < N"
  shows "(\<not> expanded s e \<longrightarrow>
           (\<exists>s'. cs_field_pointer_map N e h s = Inr s' \<and>
                 read_f s' e = Inr h \<and> read_size s' e = Inr 1)) \<and>
         (expanded s e \<longrightarrow>
           (\<exists>s'. cs_field_pointer_map N e h s = Inr s' \<and>
                 read_size s' e = read_size s e \<and> load_p s' e 0 = Inr h))"
proof (intro conjI impI)
  assume ne: "\<not> expanded s e"
  show "\<exists>s'. cs_field_pointer_map N e h s = Inr s' \<and>
                 read_f s' e = Inr h \<and> read_size s' e = Inr 1"
  proof (cases "field_pointer s = None")
    case True
    then have "cs_field_pointer_map N e h s =
        cs_field_pointer_map_indexed N e 0 h (fresh_registry N s)"
      by (simp add: cs_field_pointer_map_def map_indexed_lazy')
    with map_direct_fresh[OF assms(2), of h s] show ?thesis by simp
  next
    case False
    with assms(1) have "winv N s" by (rule winv_reachable)
    from map_direct_winv[OF this assms(2) ne, of h] show ?thesis
      by (simp add: cs_field_pointer_map_def)
  qed
next
  assume ex: "expanded s e"
  then have "sublist_size s \<noteq> None"
    by (auto simp: expanded_def read_size_def split: option.splits)
  with down_reachable(1)[OF assms(1)] have "field_pointer s \<noteq> None"
    by blast
  with assms(1) have "winv N s" by (rule winv_reachable)
  from map_expanded_winv[OF this assms(2) ex, of h]
  obtain s' b blk where s': "cs_field_pointer_map_indexed N e 0 h s = Inr s'"
    "read_p s e = Inr (Block b)" "heap s b = Some blk"
    "s' = s\<lparr>heap := (heap s)(b \<mapsto> blk[0 := Val h])\<rparr>" "blk \<noteq> []"
    by blast
  have "read_size s' e = read_size s e"
    by (simp add: s'(4) read_size_def)
  moreover have "load_p s' e 0 = Inr h"
    using s'(2,5) by (simp add: s'(4) load_p_def ebind_def)
  ultimately show "\<exists>s'. cs_field_pointer_map N e h s = Inr s' \<and>
                 read_size s' e = read_size s e \<and> load_p s' e 0 = Inr h"
    using s'(1) by (simp add: cs_field_pointer_map_def)
qed

theorem map_sets_direct_value_witness:
  "\<exists>s s' t t'. run 2 [Map 1 (Fld 7)] initial_state = Inr s \<and> \<not> expanded s 1 \<and>
     cs_field_pointer_map 2 1 (Fld 8) s = Inr s' \<and>
     read_f s' 1 = Inr (Fld 8) \<and> read_size s' 1 = Inr 1 \<and>
     run 2 [Map_indexed 1 2 (Fld 7)] initial_state = Inr t \<and> expanded t 1 \<and>
     cs_field_pointer_map 2 1 (Fld 8) t = Inr t' \<and>
     read_size t' 1 = Inr 3 \<and> load_p t' 1 0 = Inr (Fld 8)"
proof -
  obtain s where s: "run 2 [Map 1 (Fld 7)] initial_state = Inr s" "\<not> expanded s 1"
    by (simp add: exec_defs expanded_def)
  obtain t where t: "run 2 [Map_indexed 1 2 (Fld 7)] initial_state = Inr t" "expanded t 1"
    "read_size t 1 = Inr 3"
    by (simp add: exec_defs expanded_def)
  have e: "(1::nat) < 2" by simp
  from map_sets_direct_value[OF s(1) e, of "Fld 8"] s(2)
  obtain s' where "cs_field_pointer_map 2 1 (Fld 8) s = Inr s'"
     "read_f s' 1 = Inr (Fld 8)" "read_size s' 1 = Inr 1"
    by blast
  moreover from map_sets_direct_value[OF t(1) e, of "Fld 8"] t(2)
  obtain t' where "cs_field_pointer_map 2 1 (Fld 8) t = Inr t'"
     "read_size t' 1 = read_size t 1" "load_p t' 1 0 = Inr (Fld 8)"
    by blast
  ultimately show ?thesis using s t by auto
qed

text \<open>
  C2, as the specification states it, fails on an expanded slot: after \<^verbatim>\<open>map_indexed(0, 1, 1)\<close> the size
  is 2, and \<^verbatim>\<open>map(0, 2)\<close> leaves the size at 2 and the member \<^verbatim>\<open>f\<close> null.
\<close>

theorem map_sets_direct_value_counterexample:
  "size_after 1 [Map_indexed 0 1 (Fld 1)] 0 = Inr 2 \<and>
   size_after 1 [Map_indexed 0 1 (Fld 1), Map 0 (Fld 2)] 0 = Inr 2 \<and>
   f_after 1 [Map_indexed 0 1 (Fld 1), Map 0 (Fld 2)] 0 = Inr Nullptr"
  by (simp add: size_after_def f_after_def exec_defs)

subsection \<open>Lookup after a direct mapping\<close>

lemma CS_FI_inline:
  assumes "cs_glob_field_pointers s = Field_pointer_array" "read_p s e = Inr (AddrF e)"
  shows "CS_FI s e 0 = read_f s e"
  using assms by (simp add: CS_FI_def load_p_def ebind_def)

text \<open>
  C3, as the code has it: in every state that calls with indices below 32767 reach from
  the state at program start and for every valid enumerator \<open>e\<close>,
  \<^verbatim>\<open>cs_field_pointer_map(e, h)\<close> returns, and the lookup of slot \<open>e\<close> at sub-index 0,
  \<^verbatim>\<open>CS_FI_(e, 0)\<close>, then returns \<open>h\<close>. The lookup \<^verbatim>\<open>CS_F_(e)\<close> of the member \<^verbatim>\<open>f\<close>
  returns \<open>h\<close> when the slot was not expanded.
\<close>

theorem map_then_lookup:
  assumes "run N ops initial_state = Inr s" "list_all small_index ops" "e < N"
  shows "\<exists>s'. cs_field_pointer_map N e h s = Inr s' \<and>
     CS_FI s' e 0 = Inr h \<and>
     (\<not> expanded s e \<longrightarrow> CS_F s' e = Inr h)"
proof -
  define t where "t = (if field_pointer s = None then fresh_registry N s else s)"
  have call: "cs_field_pointer_map N e h s = cs_field_pointer_map_indexed N e 0 h t"
    by (simp add: t_def cs_field_pointer_map_def map_indexed_lazy')
  have inv: "sinv N t"
  proof (cases "field_pointer s = None")
    case True
    then show ?thesis by (simp add: t_def sinv_fresh)
  next
    case False
    with assms(1,2) have "sinv N s" by (rule sinv_reachable)
    with False show ?thesis by (auto simp: t_def)
  qed
  have ex: "expanded t e \<Longrightarrow> expanded s e"
  proof (cases "field_pointer s = None")
    case True
    assume "expanded t e"
    then show ?thesis
      using True assms(3) by (simp add: t_def expanded_def fresh_registry_reads)
  next
    case False
    assume "expanded t e"
    then show ?thesis using False by (auto simp: t_def)
  qed
  from inv have w: "winv N t" by (simp add: sinv_def)
  then have gl: "cs_glob_field_pointers t = Field_pointer_array"
    by (simp add: winv_def)
  show ?thesis
  proof (cases "expanded t e")
    case True
    from map_expanded_winv[OF w assms(3) True, of h]
    obtain s' b blk where s': "cs_field_pointer_map_indexed N e 0 h t = Inr s'"
      "read_p t e = Inr (Block b)" "heap t b = Some blk"
      "s' = t\<lparr>heap := (heap t)(b \<mapsto> blk[0 := Val h])\<rparr>" "blk \<noteq> []"
      by blast
    have "CS_FI s' e 0 = Inr h"
      using s'(2,5) gl by (simp add: s'(4) CS_FI_def load_p_def ebind_def)
    with s'(1) call ex[OF True] show ?thesis by auto
  next
    case False
    from inv w obtain a z where ar: "field_pointer t = Some a" "sublist_size t = Some z"
      "length a = N" "length z = N" and tg: "\<forall>i<N. tagged t a z i"
      and np: "n_pointers t = int N"
      unfolding sinv_def winv_def by auto
    from tg assms(3) have te: "tagged t a z e" by simp
    then obtain w where wv: "z ! e = Val w"
      unfolding tagged_def by blast
    have le: "sint w \<le> 1"
      using False ar wv assms(3) by (simp add: expanded_def read_size_def)
    have pe: "slot_p (a ! e) = Val (AddrF e)"
      using te wv le by (rule tagged_small)
    let ?s' = "t\<lparr>field_pointer := Some (a[e := (a ! e)\<lparr>slot_f := Val h\<rparr>]),
           sublist_size := Some (z[e := Val 1])\<rparr>"
    have ok: "cs_field_pointer_map_indexed N e 0 h t = Inr ?s'"
      using ar assms(3) np wv le by (intro map_indexed_direct) simp_all
    have rf: "read_f ?s' e = Inr h" and rp: "read_p ?s' e = Inr (AddrF e)"
      using ar assms(3) pe by (simp_all add: read_f_def read_p_def)
    have gl': "cs_glob_field_pointers ?s' = Field_pointer_array"
      using gl by simp
    have "CS_FI ?s' e 0 = Inr h"
      using CS_FI_inline[OF gl' rp] rf by simp
    moreover have "CS_F ?s' e = Inr h"
      using gl rf by (simp add: CS_F_def)
    ultimately show ?thesis using ok call by auto
  qed
qed

theorem map_then_lookup_witness:
  "\<exists>s s' t t'. run 2 [Map 1 (Fld 7)] initial_state = Inr s \<and> \<not> expanded s 1 \<and>
     cs_field_pointer_map 2 1 (Fld 8) s = Inr s' \<and>
     CS_FI s' 1 0 = Inr (Fld 8) \<and> CS_F s' 1 = Inr (Fld 8) \<and>
     run 2 [Map_indexed 1 2 (Fld 7)] initial_state = Inr t \<and>
     cs_field_pointer_map 2 1 (Fld 8) t = Inr t' \<and>
     CS_FI t' 1 0 = Inr (Fld 8)"
proof -
  obtain s where s: "run 2 [Map 1 (Fld 7)] initial_state = Inr s" "\<not> expanded s 1"
    by (simp add: exec_defs expanded_def)
  obtain t where t: "run 2 [Map_indexed 1 2 (Fld 7)] initial_state = Inr t"
    by (simp add: exec_defs)
  have sm: "list_all small_index [Map 1 (Fld 7)]"
    "list_all small_index [Map_indexed 1 2 (Fld 7)]"
    by (simp_all add: SHRT_MAX_def)
  have e: "(1::nat) < 2" by simp
  from map_then_lookup[OF s(1) sm(1) e, of "Fld 8"] s(2)
  obtain s' where "cs_field_pointer_map 2 1 (Fld 8) s = Inr s'"
     "CS_FI s' 1 0 = Inr (Fld 8)" "CS_F s' 1 = Inr (Fld 8)"
    by blast
  moreover from map_then_lookup[OF t(1) sm(2) e, of "Fld 8"]
  obtain t' where "cs_field_pointer_map 2 1 (Fld 8) t = Inr t'"
     "CS_FI t' 1 0 = Inr (Fld 8)"
    by blast
  ultimately show ?thesis using s t by auto
qed

text \<open>
  C3, as the specification states it, for every reachable state, fails after a call with index 32767:
  the stored size \<open>-32768\<close> sends \<^verbatim>\<open>map(0, 2)\<close> to the branch that writes the member
  \<^verbatim>\<open>f\<close>, while \<^verbatim>\<open>p\<close> addresses the block, whose position 0 stays null.
\<close>

theorem map_then_lookup_counterexample:
  "lookup_after 1 [Map_indexed 0 32767 (Fld 1), Map 0 (Fld 2)] 0 0 = Inr Nullptr"
proof -
  obtain s F where s: "run 1 [Map_indexed 0 32767 (Fld 1)] initial_state = Inr s"
    "n_pointers s = 1" "cs_glob_field_pointers s = Field_pointer_array"
    "field_pointer s = Some [\<lparr>slot_f = Val Nullptr, slot_p = Val (Block 0)\<rparr>]"
    "sublist_size s = Some [Val (word_of_int 32768)]"
    "heap s 0 = Some F" "length F = 32768" "F ! 0 = Val Nullptr"
    using run_wrap[of "Fld 1"] by blast
  let ?a = "[\<lparr>slot_f = Val Nullptr, slot_p = Val (Block 0)\<rparr>]"
  let ?s' = "s\<lparr>field_pointer := Some (?a[0 := (?a ! 0)\<lparr>slot_f := Val (Fld 2)\<rparr>]),
           sublist_size := Some ([Val (word_of_int 32768)][0 := Val 1])\<rparr>"
  have m: "cs_field_pointer_map_indexed 1 0 0 (Fld 2) s = Inr ?s'"
    using s(2) by (intro map_indexed_direct[OF s(4,5), where w = "word_of_int 32768"]) simp_all
  have "run 1 [Map_indexed 0 32767 (Fld 1), Map 0 (Fld 2)] initial_state
      = ebind (run 1 [Map_indexed 0 32767 (Fld 1)] initial_state) (exec_op 1 (Map 0 (Fld 2)))"
    using run_snoc[of 1 "[Map_indexed 0 32767 (Fld 1)]" "Map 0 (Fld 2)" initial_state]
    by simp
  then have r: "run 1 [Map_indexed 0 32767 (Fld 1), Map 0 (Fld 2)] initial_state = Inr ?s'"
    using s(1) m by (simp add: ebind_def cs_field_pointer_map_def)
  have "CS_FI ?s' 0 0 = Inr Nullptr"
    using s(3,6,7,8) by (simp add: CS_FI_def load_p_def read_p_def ebind_def)
  with r show ?thesis
    by (simp add: lookup_after_def ebind_def)
qed

subsection \<open>The first expansion of a directly mapped slot\<close>

text \<open>
  C4, as the code has it: in every state that a sequence of calls reaches from the state
  at program start, for a valid enumerator \<open>e\<close> whose size is 1 and whose member \<^verbatim>\<open>f\<close>
  holds \<open>v\<close>, the call \<^verbatim>\<open>cs_field_pointer_map_indexed(e, index, h)\<close> with
  \<open>0 < index < 32767\<close> returns; afterwards \<^verbatim>\<open>p\<close> addresses a heap block, position 0
  holds \<open>v\<close>, positions 1 to \<open>index - 1\<close> hold null, position \<open>index\<close> holds \<open>h\<close> and the
  size is \<open>index + 1\<close>. The bound on \<open>index\<close> is needed: the size is stored in a
  \<^verbatim>\<open>short int\<close>.
\<close>

theorem map_indexed_first_expansion:
  assumes "run N ops initial_state = Inr s" "e < N"
    "read_size s e = Inr 1" "read_f s e = Inr v"
    "0 < index" "index < SHRT_MAX"
  shows "\<exists>s' b. cs_field_pointer_map_indexed N e index h s = Inr s' \<and>
     read_p s' e = Inr (Block b) \<and>
     load_p s' e 0 = Inr v \<and>
     (\<forall>i. 0 < i \<and> i < index \<longrightarrow> load_p s' e i = Inr Nullptr) \<and>
     load_p s' e index = Inr h \<and>
     read_size s' e = Inr (index + 1)"
proof -
  from assms(4) have "field_pointer s \<noteq> None"
    by (auto simp: read_f_def split: option.splits)
  with assms(1) have "winv N s" by (rule winv_reachable)
  then obtain a z where ar: "field_pointer s = Some a" "sublist_size s = Some z"
    "length a = N" "length z = N" and wf: "\<forall>i<N. wf_slot s a z i"
    and np: "n_pointers s = int N"
    unfolding winv_def by blast
  from wf assms(2) have "wf_slot s a z e" by simp
  then obtain v' q w where sl: "a ! e = \<lparr>slot_f = Val v', slot_p = Val q\<rparr>" "z ! e = Val w"
    and q: "q = AddrF e \<and> sint w \<le> 1 \<or>
         (\<exists>b blk. q = Block b \<and> b < brk s \<and> heap s b = Some blk \<and>
            blk \<noteq> [] \<and> sint w \<le> int (length blk))"
    unfolding wf_slot_def by blast
  have w1: "sint w = 1"
    using assms(3) ar sl assms(2) by (simp add: read_size_def)
  have v: "v' = v"
    using assms(4) ar sl assms(2) by (simp add: read_f_def)
  have ea: "e < length a" "e < length z" "int e < n_pointers s"
    using assms(2) ar np by simp_all
  have im: "index < INT_MAX"
    using assms(6) by (simp add: SHRT_MAX_def INT_MAX_def)
  have sm: "sint (word_of_int (index + 1) :: 16 word) = index + 1"
    using assms(5,6) by (intro sint_short_small) (simp_all add: SHRT_MAX_def)
  define B where "B = (if q = AddrF e then replicate (nat (index + 1)) Indet
     else realloc_cells (the (heap s (case q of Block b \<Rightarrow> b | _ \<Rightarrow> 0))) (index + 1))"
  define F where "F = (grown_block B v 1 index)[nat index := Val h]"
  have lB: "length B = nat (index + 1)"
    by (simp add: B_def)
  have "\<exists>s' b. cs_field_pointer_map_indexed N e index h s = Inr s' \<and>
      read_p s' e = Inr (Block b) \<and> heap s' b = Some F \<and>
      read_size s' e = Inr (index + 1)"
    using q
  proof
    assume qa: "q = AddrF e \<and> sint w \<le> 1"
    have sl': "a ! e = \<lparr>slot_f = Val v, slot_p = Val (AddrF e)\<rparr>"
      using sl(1) by (simp add: qa v)
    have "cs_field_pointer_map_indexed N e index h s =
      Inr (s\<lparr>field_pointer := Some (a[e := \<lparr>slot_f = Val v, slot_p = Val (Block (brk s))\<rparr>]),
           sublist_size := Some (z[e := Val (word_of_int (index + 1))]),
           heap := (heap s)(brk s \<mapsto>
              (grown_block (replicate (nat (index + 1)) Indet) v (sint w) index)
                [nat index := Val h]),
           brk := Suc (brk s)\<rparr>)"
      using ar(1,2) ea sl' sl(2) assms(5) im w1
      by (intro map_indexed_grow_inline) simp_all
    then show ?thesis
      using ea ar sm qa
      by (simp add: read_p_def read_size_def F_def B_def w1)
  next
    assume "\<exists>b blk. q = Block b \<and> b < brk s \<and> heap s b = Some blk \<and>
            blk \<noteq> [] \<and> sint w \<le> int (length blk)"
    then obtain b blk where b: "q = Block b" "heap s b = Some blk" by blast
    have sl': "a ! e = \<lparr>slot_f = Val v, slot_p = Val (Block b)\<rparr>"
      using sl(1) by (simp add: b(1) v)
    have "cs_field_pointer_map_indexed N e index h s =
      Inr (s\<lparr>sublist_size := Some (z[e := Val (word_of_int (index + 1))]),
           heap := (heap s)(b \<mapsto>
              (grown_block (realloc_cells blk (index + 1)) v (sint w) index)
                [nat index := Val h])\<rparr>)"
      using ar(1,2) ea sl' sl(2) b(2) assms(5) im w1
      by (intro map_indexed_grow_block) simp_all
    then show ?thesis
      using ea ar sm b sl'
      by (simp add: read_p_def read_size_def F_def B_def w1)
  qed
  then obtain s' b where s': "cs_field_pointer_map_indexed N e index h s = Inr s'"
    "read_p s' e = Inr (Block b)" "heap s' b = Some F" "read_size s' e = Inr (index + 1)"
    by blast
  have lF: "length F = nat (index + 1)"
    unfolding F_def using assms(5) lB by (intro length_final_block) simp_all
  have ld: "load_p s' e i = (case F ! nat i of Indet \<Rightarrow> Inl Indeterminate_read | Val x \<Rightarrow> Inr x)"
    if "0 \<le> i" "i \<le> index" for i
    using s'(2,3) that lF by (intro load_p_block) simp_all
  have "F ! 0 = Val v"
    unfolding F_def using assms(5) lB by (intro final_block_first) simp_all
  then have p0: "load_p s' e 0 = Inr v"
    using ld[of 0] assms(5) by simp
  have pm: "load_p s' e i = Inr Nullptr" if "0 < i" "i < index" for i
  proof -
    have "F ! nat i = Val Nullptr"
      unfolding F_def using that lB by (intro final_block_null) simp_all
    then show ?thesis using ld[of i] that by simp
  qed
  have "F ! nat index = Val h"
    unfolding F_def using assms(5) lB by (intro final_block_index) simp_all
  then have pi: "load_p s' e index = Inr h"
    using ld[of index] assms(5) by simp
  from s'(1,2,4) p0 pm pi show ?thesis by blast
qed

theorem map_indexed_first_expansion_witness:
  "\<exists>s s' b. run 2 [Map 1 (Fld 7)] initial_state = Inr s \<and>
     read_size s 1 = Inr 1 \<and> read_f s 1 = Inr (Fld 7) \<and>
     cs_field_pointer_map_indexed 2 1 3 (Fld 9) s = Inr s' \<and>
     read_p s' 1 = Inr (Block b) \<and>
     load_p s' 1 0 = Inr (Fld 7) \<and>
     load_p s' 1 1 = Inr Nullptr \<and> load_p s' 1 2 = Inr Nullptr \<and>
     load_p s' 1 3 = Inr (Fld 9) \<and>
     read_size s' 1 = Inr 4"
proof -
  obtain s where s: "run 2 [Map 1 (Fld 7)] initial_state = Inr s"
    "read_size s 1 = Inr 1" "read_f s 1 = Inr (Fld 7)"
    by (simp add: exec_defs)
  have "(1::nat) < 2" "(0::int) < 3" "(3::int) < SHRT_MAX"
    by (simp_all add: SHRT_MAX_def)
  from map_indexed_first_expansion[OF s(1) this(1) s(2,3) this(2,3), of "Fld 9"]
  obtain s' b where "cs_field_pointer_map_indexed 2 1 3 (Fld 9) s = Inr s'"
     "read_p s' 1 = Inr (Block b)" "load_p s' 1 0 = Inr (Fld 7)"
     "\<forall>i. 0 < i \<and> i < 3 \<longrightarrow> load_p s' 1 i = Inr Nullptr"
     "load_p s' 1 3 = Inr (Fld 9)" "read_size s' 1 = Inr (3 + 1)"
    by blast
  with s show ?thesis by auto
qed

text \<open>
  C4, as the specification states it, for every \<open>index > 0\<close>, fails at \<open>index = 32767\<close>: the size
  32768 does not fit the \<^verbatim>\<open>short int\<close> and the stored size is \<open>-32768\<close>.
\<close>

theorem map_indexed_first_expansion_counterexample:
  "size_after 1 [Map 0 (Fld 7)] 0 = Inr 1 \<and>
   f_after 1 [Map 0 (Fld 7)] 0 = Inr (Fld 7) \<and>
   size_after 1 [Map 0 (Fld 7), Map_indexed 0 32767 (Fld 9)] 0 = Inr (- 32768)"
proof -
  obtain s where s: "run 1 [Map 0 (Fld 7)] initial_state = Inr s"
    "field_pointer s = Some [\<lparr>slot_f = Val (Fld 7), slot_p = Val (AddrF 0)\<rparr>]"
    "sublist_size s = Some [Val 1]" "n_pointers s = 1"
    by (simp add: exec_defs)
  have g: "cs_field_pointer_map_indexed 1 0 32767 (Fld 9) s =
      Inr (s\<lparr>field_pointer := Some ([\<lparr>slot_f = Val (Fld 7), slot_p = Val (AddrF 0)\<rparr>]
              [0 := \<lparr>slot_f = Val (Fld 7), slot_p = Val (Block (brk s))\<rparr>]),
           sublist_size := Some ([Val 1][0 := Val (word_of_int (32767 + 1))]),
           heap := (heap s)(brk s \<mapsto>
              (grown_block (replicate (nat (32767 + 1)) Indet) (Fld 7) (sint (1 :: 16 word)) 32767)
                [nat 32767 := Val (Fld 9)]),
           brk := Suc (brk s)\<rparr>)"
    using s(2,3,4) by (intro map_indexed_grow_inline) (simp_all add: INT_MAX_def)
  have "run 1 [Map 0 (Fld 7), Map_indexed 0 32767 (Fld 9)] initial_state
      = ebind (run 1 [Map 0 (Fld 7)] initial_state) (exec_op 1 (Map_indexed 0 32767 (Fld 9)))"
    using run_snoc[of 1 "[Map 0 (Fld 7)]" "Map_indexed 0 32767 (Fld 9)" initial_state] by simp
  then have "size_after 1 [Map 0 (Fld 7), Map_indexed 0 32767 (Fld 9)] 0 = Inr (- 32768)"
    using s(1) g by (simp add: size_after_def ebind_def read_size_def)
  moreover have "size_after 1 [Map 0 (Fld 7)] 0 = Inr 1"
    using s by (simp add: size_after_def ebind_def read_size_def)
  moreover have "f_after 1 [Map 0 (Fld 7)] 0 = Inr (Fld 7)"
    using s by (simp add: f_after_def ebind_def read_f_def)
  ultimately show ?thesis by simp
qed

subsection \<open>Sizes only grow\<close>

lemma map_indexed_monotone:
  assumes "winv N s" "cs_field_pointer_map_indexed N e index fp s = Inr s'"
    "index < SHRT_MAX" "i < N"
  shows "\<exists>w w'. read_size s i = Inr w \<and> read_size s' i = Inr w' \<and> w \<le> w' \<and>
     (read_p s i \<noteq> Inr (AddrF i) \<longrightarrow> read_p s' i \<noteq> Inr (AddrF i))"
proof -
  from assms(1) obtain a z where ar: "field_pointer s = Some a" "sublist_size s = Some z"
    "length a = N" "length z = N" and wf: "\<forall>i<N. wf_slot s a z i"
    and np: "n_pointers s = int N"
    unfolding winv_def by blast
  from wf assms(4) have "wf_slot s a z i" by simp
  then obtain wi where wi: "z ! i = Val wi"
    unfolding wf_slot_def by blast
  have rs: "read_size s i = Inr (sint wi)"
    using ar wi assms(4) by (simp add: read_size_def)
  have sm: "sint (word_of_int (index + 1) :: 16 word) = index + 1" if "0 \<le> index"
    using that assms(3) by (intro sint_short_small) (simp_all add: SHRT_MAX_def)
  from ar np wf assms(2) show ?thesis
  proof (cases rule: map_indexed_shape)
    case (direct v q w)
    show ?thesis
    proof (cases "i = e")
      case True
      with direct wi have "sint wi \<le> 1" by simp
      then show ?thesis
        using rs True direct ar assms(4) by (simp add: read_size_def read_p_def)
    next
      case False
      then show ?thesis
        using rs direct(6) ar assms(4) wi by (simp add: read_size_def read_p_def)
    qed
  next
    case (grow_inline v w)
    show ?thesis
    proof (cases "i = e")
      case True
      with grow_inline wi have "sint wi \<le> index + 1" by simp
      then show ?thesis
        using rs True grow_inline(4,8) ar assms(4) sm
        by (simp add: read_size_def read_p_def)
    next
      case False
      then show ?thesis
        using rs grow_inline(8) ar assms(4) wi by (simp add: read_size_def read_p_def)
    qed
  next
    case (grow_block v w b blk)
    show ?thesis
    proof (cases "i = e")
      case True
      with grow_block wi have "sint wi \<le> index + 1" by simp
      then show ?thesis
        using rs True grow_block(4,10) ar assms(4) sm
        by (simp add: read_size_def read_p_def)
    next
      case False
      then show ?thesis
        using rs grow_block(10) ar assms(4) wi by (simp add: read_size_def read_p_def)
    qed
  next
    case (overwrite v w b blk)
    then show ?thesis
      using rs by (simp add: read_size_def read_p_def)
  qed
qed

lemma run_monotone:
  assumes "winv N s" "run N ops s = Inr s'" "list_all small_index ops"
    "list_all no_destroy ops" "i < N"
  shows "\<exists>w w'. read_size s i = Inr w \<and> read_size s' i = Inr w' \<and> w \<le> w' \<and>
     (read_p s i \<noteq> Inr (AddrF i) \<longrightarrow> read_p s' i \<noteq> Inr (AddrF i))"
  using assms
proof (induction ops arbitrary: s)
  case Nil
  from Nil.prems(1) obtain a z where ar: "sublist_size s = Some z" "length z = N"
    and wf: "\<forall>i<N. wf_slot s a z i"
    unfolding winv_def by blast
  from wf Nil.prems(5) have "wf_slot s a z i" by simp
  then obtain wi where "z ! i = Val wi"
    unfolding wf_slot_def by blast
  then have "read_size s i = Inr (sint wi)"
    using ar Nil.prems(5) by (simp add: read_size_def)
  with Nil.prems(2) show ?case by simp
next
  case (Cons x xs)
  from Cons.prems(2) obtain s1 where s1: "exec_op N x s = Inr s1" "run N xs s1 = Inr s'"
    by (auto split: sum.splits)
  from Cons.prems(3,4) have x: "small_index x" "no_destroy x"
    and xs: "list_all small_index xs" "list_all no_destroy xs"
    by simp_all
  from Cons.prems(1) s1(1) have w1: "winv N s1"
    using winv_exec_op[of s N x s1] x(2)
    by (cases x) (auto simp: ensure_init_eq cs_field_pointer_map_def
        dest: winv_initialised winv_map_indexed)
  from w1 s1(2) xs Cons.prems(5)
  obtain w1' w' where tl: "read_size s1 i = Inr w1'" "read_size s' i = Inr w'" "w1' \<le> w'"
    "read_p s1 i \<noteq> Inr (AddrF i) \<longrightarrow> read_p s' i \<noteq> Inr (AddrF i)"
    using Cons.IH by blast
  from Cons.prems(1) s1(1) x(2)
  have "\<exists>w w1. read_size s i = Inr w \<and> read_size s1 i = Inr w1 \<and> w \<le> w1 \<and>
     (read_p s i \<noteq> Inr (AddrF i) \<longrightarrow> read_p s1 i \<noteq> Inr (AddrF i))"
  proof (cases rule: exec_op_initialised)
    case same
    with tl(1) show ?thesis by simp
  next
    case (mapped e index fp)
    with x(1) have "index < SHRT_MAX" by simp
    with Cons.prems(1) mapped(1) show ?thesis
      using Cons.prems(5) by (rule map_indexed_monotone)
  qed
  with tl show ?case by auto
qed

text \<open>
  C5, as the code has it: take any calls of \<^verbatim>\<open>cs_field_pointer_ensure_init\<close>,
  \<^verbatim>\<open>cs_field_pointer_map\<close> and \<^verbatim>\<open>cs_field_pointer_map_indexed\<close> with indices below 32767,
  made after the first initialisation. Between any two states of that sequence no size
  has decreased, and a slot whose \<^verbatim>\<open>p\<close> no longer addresses its own member \<^verbatim>\<open>f\<close> in
  the earlier state does not address it in the later one: a slot leaves the inline
  representation at most once.
\<close>

theorem sizes_never_decrease:
  assumes "run N (Ensure_init # ops1) initial_state = Inr s" "run N ops2 s = Inr s'"
    "list_all small_index (ops1 @ ops2)" "list_all no_destroy (ops1 @ ops2)" "i < N"
  shows "\<exists>w w'. read_size s i = Inr w \<and> read_size s' i = Inr w' \<and> w \<le> w' \<and>
     (read_p s i \<noteq> Inr (AddrF i) \<longrightarrow> read_p s' i \<noteq> Inr (AddrF i))"
proof -
  let ?t = "fresh_registry N initial_state"
  have "run N ops1 ?t = Inr s"
    using assms(1) by (simp add: ensure_init_eq initial_state_def)
  moreover have "winv N ?t" by (rule winv_fresh)
  moreover have "list_all no_destroy ops1" using assms(4) by simp
  ultimately have "winv N s"
  proof (induction ops1 arbitrary: s rule: rev_induct)
    case Nil
    then show ?case by simp
  next
    case (snoc x xs)
    from snoc.prems(1) obtain s1 where s1: "run N xs ?t = Inr s1" "exec_op N x s1 = Inr s"
      by (auto simp: run_snoc ebind_def split: sum.splits)
    from snoc.prems(3) have nd: "list_all no_destroy xs" "no_destroy x" by simp_all
    from s1(1) snoc.prems(2) nd(1) have "winv N s1" by (rule snoc.IH)
    then show ?case
      using s1(2) nd(2)
      by (cases x) (auto simp: ensure_init_eq cs_field_pointer_map_def
          dest: winv_initialised winv_map_indexed)
  qed
  moreover have "list_all small_index ops2" "list_all no_destroy ops2"
    using assms(3,4) by simp_all
  ultimately show ?thesis
    using assms(2,5) by (intro run_monotone[where ops = ops2]) simp_all
qed

theorem sizes_never_decrease_witness:
  "\<exists>s s'. run 2 [Ensure_init, Map 1 (Fld 7)] initial_state = Inr s \<and>
     run 2 [Map_indexed 1 3 (Fld 8), Map 1 (Fld 9), Map_indexed 1 1 (Fld 6)] s = Inr s' \<and>
     read_size s 1 = Inr 1 \<and> read_size s' 1 = Inr 4 \<and>
     read_size s 0 = Inr 0 \<and> read_size s' 0 = Inr 0"
proof -
  obtain s s' where s: "run 2 [Ensure_init, Map 1 (Fld 7)] initial_state = Inr s"
    "read_size s 1 = Inr 1" "read_size s 0 = Inr 0"
    and s': "run 2 [Map_indexed 1 3 (Fld 8), Map 1 (Fld 9),
       Map_indexed 1 1 (Fld 6)] s = Inr s'"
    "read_size s' 1 = Inr 4" "read_size s' 0 = Inr 0"
    by (simp add: exec_defs)
  have ok: "list_all small_index ([Map 1 (Fld 7)] @ [Map_indexed 1 3 (Fld 8), Map 1 (Fld 9),
       Map_indexed 1 1 (Fld 6)])"
    "list_all no_destroy ([Map 1 (Fld 7)] @ [Map_indexed 1 3 (Fld 8), Map 1 (Fld 9),
       Map_indexed 1 1 (Fld 6)])"
    by (simp_all add: SHRT_MAX_def)
  have "(1::nat) < 2" by simp
  from sizes_never_decrease[OF s(1) s'(1) ok this] s s'
  show ?thesis by auto
qed

text \<open>
  C5, as the specification states it, for every sequence of calls, fails at index 32767: the size of
  slot 0 is 0 after the initialisation and \<open>-32768\<close> after the call.
\<close>

theorem sizes_never_decrease_counterexample:
  "size_after 1 [Ensure_init] 0 = Inr 0 \<and>
   size_after 1 [Ensure_init, Map_indexed 0 32767 (Fld 1)] 0 = Inr (- 32768)"
proof -
  obtain s F where s: "run 1 [Map_indexed 0 32767 (Fld 1)] initial_state = Inr s"
    "sublist_size s = Some [Val (word_of_int 32768)]"
    using run_wrap[of "Fld 1"] by blast
  have "cs_field_pointer_map_indexed 1 0 32767 (Fld 1) (fresh_registry 1 initial_state)
      = cs_field_pointer_map_indexed 1 0 32767 (Fld 1) initial_state"
    by (rule map_indexed_lazy'[symmetric]) (simp add: initial_state_def)
  then have "run 1 [Ensure_init, Map_indexed 0 32767 (Fld 1)] initial_state = Inr s"
    using s(1) by (simp add: ensure_init_eq initial_state_def)
  then have "size_after 1 [Ensure_init, Map_indexed 0 32767 (Fld 1)] 0 = Inr (- 32768)"
    using s(2) by (simp add: size_after_def ebind_def read_size_def)
  moreover have "size_after 1 [Ensure_init] 0 = Inr 0"
    by (simp add: size_after_def exec_defs)
  ultimately show ?thesis by simp
qed

subsection \<open>Idempotence of the initialisation\<close>

text \<open>
  C6: \<^verbatim>\<open>cs_field_pointer_ensure_init\<close> is idempotent. In every state the call returns,
  and a second call right after it returns the state of the first. When
  \<^verbatim>\<open>_field_pointer\<close> is null, the first call sets \<^verbatim>\<open>_n_pointers\<close> to the number of
  enumerators, allocates both arrays with that many elements, makes every member \<^verbatim>\<open>f\<close>
  null, every member \<^verbatim>\<open>p\<close> the address of its own \<^verbatim>\<open>f\<close> and every sub-list size 0,
  and publishes the array in \<^verbatim>\<open>cs_glob_field_pointers\<close>; when \<^verbatim>\<open>_field_pointer\<close> is
  set, the call changes nothing.
\<close>

theorem ensure_init_idempotent:
  "\<exists>s1. cs_field_pointer_ensure_init N s = Inr s1 \<and>
        cs_field_pointer_ensure_init N s1 = Inr s1 \<and>
        (field_pointer s = None \<longrightarrow>
           n_pointers s1 = int N \<and>
           cs_glob_field_pointers s1 = Field_pointer_array \<and>
           map_option length (field_pointer s1) = Some N \<and>
           map_option length (sublist_size s1) = Some N \<and>
           (\<forall>e<N. read_f s1 e = Inr Nullptr \<and> read_p s1 e = Inr (AddrF e) \<and>
                   read_size s1 e = Inr 0) \<and>
           heap s1 = heap s \<and> brk s1 = brk s) \<and>
        (field_pointer s \<noteq> None \<longrightarrow> s1 = s)"
proof (cases "field_pointer s = None")
  case True
  let ?s1 = "fresh_registry N s"
  have first: "cs_field_pointer_ensure_init N s = Inr ?s1"
    using True by (simp add: ensure_init_eq)
  have "field_pointer ?s1 = Some (map fresh_slot [0..<N])"
    by (simp add: fresh_registry_def)
  then have second: "cs_field_pointer_ensure_init N ?s1 = Inr ?s1"
    by (simp add: ensure_init_eq)
  have shape: "n_pointers ?s1 = int N" "cs_glob_field_pointers ?s1 = Field_pointer_array"
    "map_option length (field_pointer ?s1) = Some N"
    "map_option length (sublist_size ?s1) = Some N"
    "heap ?s1 = heap s" "brk ?s1 = brk s"
    by (simp_all add: fresh_registry_def)
  from first second shape True show ?thesis
    by (intro exI[of _ ?s1]) (simp add: fresh_registry_reads)
next
  case False
  then obtain a where a: "field_pointer s = Some a"
    by auto
  then have "cs_field_pointer_ensure_init N s = Inr s"
    by (simp add: ensure_init_eq)
  with a show ?thesis by simp
qed

theorem ensure_init_idempotent_witness:
  "\<exists>s1. cs_field_pointer_ensure_init 2 initial_state = Inr s1 \<and>
        cs_field_pointer_ensure_init 2 s1 = Inr s1 \<and>
        n_pointers s1 = 2 \<and>
        cs_glob_field_pointers s1 = Field_pointer_array \<and>
        map_option length (field_pointer s1) = Some 2 \<and>
        map_option length (sublist_size s1) = Some 2 \<and>
        read_f s1 0 = Inr Nullptr \<and> read_p s1 0 = Inr (AddrF 0) \<and> read_size s1 0 = Inr 0 \<and>
        read_f s1 1 = Inr Nullptr \<and> read_p s1 1 = Inr (AddrF 1) \<and> read_size s1 1 = Inr 0"
proof -
  have "field_pointer initial_state = None"
    by (simp add: initial_state_def)
  with ensure_init_idempotent[of 2 initial_state] show ?thesis
    by auto
qed

subsection \<open>Teardown followed by initialisation\<close>

text \<open>
  C7: in every initialised state that a sequence of calls reaches from the state at
  program start, \<^verbatim>\<open>cs_field_pointer_destroy_all\<close> returns and leaves \<^verbatim>\<open>_field_pointer\<close>,
  \<^verbatim>\<open>_sublist_size\<close> and \<^verbatim>\<open>cs_glob_field_pointers\<close> null; a call of
  \<^verbatim>\<open>cs_field_pointer_ensure_init\<close> after it returns a registry whose members \<^verbatim>\<open>f\<close> are all
  null and whose sizes are all 0, with the same \<^verbatim>\<open>_n_pointers\<close>, arrays and global
  pointer as the first initialisation of the program gives.
\<close>

theorem destroy_all_then_ensure_init:
  assumes "run N ops initial_state = Inr s" "field_pointer s \<noteq> None"
  shows "\<exists>s1 s2 s0.
     cs_field_pointer_destroy_all s = Inr s1 \<and>
     field_pointer s1 = None \<and> sublist_size s1 = None \<and>
     cs_glob_field_pointers s1 = No_array \<and>
     cs_field_pointer_ensure_init N s1 = Inr s2 \<and>
     (\<forall>e<N. read_f s2 e = Inr Nullptr \<and> read_size s2 e = Inr 0) \<and>
     cs_field_pointer_ensure_init N initial_state = Inr s0 \<and>
     n_pointers s2 = n_pointers s0 \<and> field_pointer s2 = field_pointer s0 \<and>
     sublist_size s2 = sublist_size s0 \<and>
     cs_glob_field_pointers s2 = cs_glob_field_pointers s0"
proof -
  from assms have "winv N s" by (rule winv_reachable)
  then obtain s1 where s1: "cs_field_pointer_destroy_all s = Inr s1" "field_pointer s1 = None"
    "sublist_size s1 = None" "cs_glob_field_pointers s1 = No_array"
    using destroy_all_winv by blast
  let ?s2 = "fresh_registry N s1"
  let ?s0 = "fresh_registry N initial_state"
  have s2: "cs_field_pointer_ensure_init N s1 = Inr ?s2"
    using s1(2) by (simp add: ensure_init_eq)
  have s0: "cs_field_pointer_ensure_init N initial_state = Inr ?s0"
    by (simp add: ensure_init_eq initial_state_def)
  have same: "n_pointers ?s2 = n_pointers ?s0" "field_pointer ?s2 = field_pointer ?s0"
    "sublist_size ?s2 = sublist_size ?s0"
    "cs_glob_field_pointers ?s2 = cs_glob_field_pointers ?s0"
    by (simp_all add: fresh_registry_def)
  have "\<forall>e<N. read_f ?s2 e = Inr Nullptr \<and> read_size ?s2 e = Inr 0"
    by (simp add: fresh_registry_reads)
  with s1 s2 s0 same show ?thesis by blast
qed

theorem destroy_all_then_ensure_init_witness:
  "\<exists>s s1 s2 s0.
     run 2 [Map_indexed 0 2 (Fld 5), Map 1 (Fld 6)] initial_state = Inr s \<and>
     field_pointer s \<noteq> None \<and>
     cs_field_pointer_destroy_all s = Inr s1 \<and>
     field_pointer s1 = None \<and> sublist_size s1 = None \<and>
     cs_glob_field_pointers s1 = No_array \<and>
     cs_field_pointer_ensure_init 2 s1 = Inr s2 \<and>
     read_f s2 0 = Inr Nullptr \<and> read_size s2 0 = Inr 0 \<and>
     read_f s2 1 = Inr Nullptr \<and> read_size s2 1 = Inr 0 \<and>
     cs_field_pointer_ensure_init 2 initial_state = Inr s0 \<and>
     n_pointers s2 = n_pointers s0 \<and> field_pointer s2 = field_pointer s0 \<and>
     sublist_size s2 = sublist_size s0 \<and>
     cs_glob_field_pointers s2 = cs_glob_field_pointers s0"
proof -
  obtain s where s: "run 2 [Map_indexed 0 2 (Fld 5), Map 1 (Fld 6)] initial_state = Inr s"
    "field_pointer s \<noteq> None"
    by (simp add: exec_defs)
  from destroy_all_then_ensure_init[OF s] s show ?thesis
    by (auto simp: numeral_2_eq_2 less_Suc_eq)
qed

subsection \<open>Preconditions and array bounds\<close>

lemma map_indexed_total:
  assumes "sinv N s" "e < N" "0 \<le> index" "index < INT_MAX"
  shows "\<exists>s'. cs_field_pointer_map_indexed N e index h s = Inr s'"
proof -
  from assms(1) obtain a z where ar: "field_pointer s = Some a" "sublist_size s = Some z"
    "length a = N" "length z = N" and wf: "\<forall>i<N. wf_slot s a z i"
    and tg: "\<forall>i<N. tagged s a z i" and np: "n_pointers s = int N"
    unfolding sinv_def winv_def by auto
  from wf assms(2) have "wf_slot s a z e" by simp
  then obtain v q w where sl: "a ! e = \<lparr>slot_f = Val v, slot_p = Val q\<rparr>" "z ! e = Val w"
    unfolding wf_slot_def by blast
  from tg assms(2) have te: "tagged s a z e" by simp
  have ea: "e < length a" "e < length z" "int e < n_pointers s"
    using assms(2) ar np by simp_all
  note im = assms(4)
  have nn: "0 \<le> sint w"
    using te sl(2) unfolding tagged_def by auto
  show ?thesis
  proof (cases "sint w \<le> 1")
    case True
    have pe: "slot_p (a ! e) = Val (AddrF e)"
      using te sl(2) True by (rule tagged_small)
    show ?thesis
    proof (cases "index = 0")
      case True
      with map_indexed_direct[OF ar(1,2) ea sl(2) \<open>sint w \<le> 1\<close>, of N h]
      show ?thesis by simp
    next
      case False
      have sl': "a ! e = \<lparr>slot_f = Val v, slot_p = Val (AddrF e)\<rparr>"
        using sl(1) pe by simp
      have "0 < index" "sint w \<le> index"
        using False assms(3) True by simp_all
      with map_indexed_grow_inline[OF ar(1,2) ea sl' sl(2) nn _ _ im, of N h]
      show ?thesis by simp
    qed
  next
    case False
    from False te sl obtain b where qb: "q = Block b"
      unfolding tagged_def by auto
    have pe: "slot_p (a ! e) = Val (Block b)"
      using sl(1) by (simp add: qb)
    from tagged_large[OF te sl(2) pe] obtain blk where
      blk: "heap s b = Some blk" "int (length blk) = sint w"
      by blast
    have sl': "a ! e = \<lparr>slot_f = Val v, slot_p = Val (Block b)\<rparr>"
      using sl(1) by (simp add: qb)
    show ?thesis
    proof (cases "index < sint w")
      case True
      have "1 < sint w" "index < int (length blk)"
        using False True blk(2) by simp_all
      with map_indexed_overwrite[OF ar(1,2) ea sl(2) pe blk(1) assms(3) True, of N h]
      show ?thesis by simp
    next
      case ge: False
      have "sint w \<le> index" "index = 0 \<longrightarrow> 1 < sint w"
        using ge False by simp_all
      with map_indexed_grow_block[OF ar(1,2) ea sl' sl(2) blk(1) nn _ _ im, of N h]
      show ?thesis by simp
    qed
  qed
qed

text \<open>
  C8, as the code has it. In every state that calls reach from the state at program
  start, whatever their indices: a call of \<^verbatim>\<open>cs_field_pointer_map_indexed\<close> with a negative
  index, or with an enumerator that is not below the number of enumerators, stops at an
  \<^verbatim>\<open>assert\<close>; a call with a valid enumerator and index \<open>INT_MAX\<close> stops at the overflow of
  \<^verbatim>\<open>index+1\<close>. In every state that calls with indices below 32767 reach, a call with a
  valid enumerator and \<open>0 \<le> index < INT_MAX\<close> returns, and so does
  \<^verbatim>\<open>cs_field_pointer_map\<close> with a valid enumerator. A call that returns has made no
  access outside an array: the model turns every such access into an error. The
  enumerator is a value of an enumeration, so it is never negative.
\<close>

theorem map_indexed_contract:
  assumes "run N ops initial_state = Inr s"
  shows "(index < 0 \<longrightarrow>
            cs_field_pointer_map_indexed N e index h s = Inl Assertion_failed) \<and>
         (\<not> e < N \<longrightarrow>
            cs_field_pointer_map_indexed N e index h s = Inl Assertion_failed) \<and>
         (e < N \<and> index = INT_MAX \<longrightarrow>
            cs_field_pointer_map_indexed N e index h s = Inl Signed_overflow) \<and>
         (list_all small_index ops \<and> e < N \<and> 0 \<le> index \<and> index < INT_MAX \<longrightarrow>
            (\<exists>s'. cs_field_pointer_map_indexed N e index h s = Inr s')) \<and>
         (list_all small_index ops \<and> e < N \<longrightarrow>
            (\<exists>s'. cs_field_pointer_map N e h s = Inr s'))"
proof -
  define t where "t = (if field_pointer s = None then fresh_registry N s else s)"
  have call: "cs_field_pointer_map_indexed N e i h s = cs_field_pointer_map_indexed N e i h t"
    for i
    by (simp add: t_def map_indexed_lazy')
  have winv: "winv N t"
  proof (cases "field_pointer s = None")
    case True
    then show ?thesis by (simp add: t_def winv_fresh)
  next
    case False
    with assms have "winv N s" by (rule winv_reachable)
    with False show ?thesis by (auto simp: t_def)
  qed
  then obtain a z where ar: "field_pointer t = Some a" "sublist_size t = Some z"
    "length a = N" "length z = N" and wf: "\<forall>i<N. wf_slot t a z i"
    and np: "n_pointers t = int N"
    unfolding winv_def by auto
  have neg: "cs_field_pointer_map_indexed N e index h s = Inl Assertion_failed"
    if "index < 0"
    using that by (rule map_indexed_negative)
  have bad: "cs_field_pointer_map_indexed N e index h s = Inl Assertion_failed"
    if "\<not> e < N"
  proof -
    have "\<not> int e < n_pointers t"
      using that np by simp
    with ar(1) have "cs_field_pointer_map_indexed N e index h t = Inl Assertion_failed"
      by (rule map_indexed_bad_enum)
    then show ?thesis by (simp add: call)
  qed
  have ovf: "cs_field_pointer_map_indexed N e index h s = Inl Signed_overflow"
    if "e < N" "index = INT_MAX"
  proof -
    from wf that(1) have "wf_slot t a z e" by simp
    then obtain w where w: "z ! e = Val w"
      unfolding wf_slot_def by blast
    have ez: "e < length z" "int e < n_pointers t"
      using that(1) ar(4) np by simp_all
    have "INT_MAX \<le> index"
      using that(2) by simp
    with ar(1,2) ez w have "cs_field_pointer_map_indexed N e index h t = Inl Signed_overflow"
      by (rule map_indexed_overflow)
    then show ?thesis by (simp add: call)
  qed
  have inv: "sinv N t" if "list_all small_index ops"
  proof (cases "field_pointer s = None")
    case True
    then show ?thesis by (simp add: t_def sinv_fresh)
  next
    case False
    with assms that have "sinv N s" by (rule sinv_reachable)
    with False show ?thesis by (auto simp: t_def)
  qed
  have ok: "\<exists>s'. cs_field_pointer_map_indexed N e i h s = Inr s'"
    if "list_all small_index ops" "e < N" "0 \<le> i" "i < INT_MAX" for i
    using map_indexed_total[OF inv[OF that(1)] that(2,3,4)] by (simp add: call)
  have "\<exists>s'. cs_field_pointer_map N e h s = Inr s'"
    if "list_all small_index ops" "e < N"
    using ok[of 0] that by (simp add: cs_field_pointer_map_def INT_MAX_def)
  with neg bad ovf ok show ?thesis by blast
qed

theorem map_indexed_contract_witness:
  "\<exists>s s' s''. run 2 [Map_indexed 1 2 (Fld 7)] initial_state = Inr s \<and>
     cs_field_pointer_map_indexed 2 1 (- 1) (Fld 8) s = Inl Assertion_failed \<and>
     cs_field_pointer_map_indexed 2 2 0 (Fld 8) s = Inl Assertion_failed \<and>
     cs_field_pointer_map_indexed 2 1 2147483647 (Fld 8) s = Inl Signed_overflow \<and>
     cs_field_pointer_map_indexed 2 1 40000 (Fld 8) s = Inr s' \<and>
     cs_field_pointer_map 2 1 (Fld 8) s = Inr s''"
proof -
  obtain s where s: "run 2 [Map_indexed 1 2 (Fld 7)] initial_state = Inr s"
    by (simp add: exec_defs)
  have sm: "list_all small_index [Map_indexed 1 2 (Fld 7)]"
    by (simp add: SHRT_MAX_def)
  from map_indexed_contract[OF s, of "- 1" 1 "Fld 8"]
  have 1: "cs_field_pointer_map_indexed 2 1 (- 1) (Fld 8) s = Inl Assertion_failed"
    by simp
  from map_indexed_contract[OF s, of 0 2 "Fld 8"]
  have 2: "cs_field_pointer_map_indexed 2 2 0 (Fld 8) s = Inl Assertion_failed"
    by simp
  from map_indexed_contract[OF s, of 2147483647 1 "Fld 8"]
  have 3: "cs_field_pointer_map_indexed 2 1 2147483647 (Fld 8) s = Inl Signed_overflow"
    by (simp add: INT_MAX_def)
  from map_indexed_contract[OF s, of 40000 1 "Fld 8"] sm
  obtain s' s'' where "cs_field_pointer_map_indexed 2 1 40000 (Fld 8) s = Inr s'"
    "cs_field_pointer_map 2 1 (Fld 8) s = Inr s''"
    by (auto simp: INT_MAX_def)
  with s 1 2 3 show ?thesis by blast
qed

text \<open>
  C8, as the specification states it, for every state, fails after a call with index 32767: the stored
  size is \<open>-32768\<close>, and the next call, \<^verbatim>\<open>map_indexed(0, 1, 2)\<close>, which meets the
  precondition, starts the loop that writes null at position \<open>-32768\<close> of the block.
\<close>

theorem map_indexed_contract_counterexample:
  "run 1 [Map_indexed 0 32767 (Fld 1), Map_indexed 0 1 (Fld 2)] initial_state
     = Inl Out_of_bounds"
proof -
  obtain s F where s: "run 1 [Map_indexed 0 32767 (Fld 1)] initial_state = Inr s"
    "n_pointers s = 1"
    "field_pointer s = Some [\<lparr>slot_f = Val Nullptr, slot_p = Val (Block 0)\<rparr>]"
    "sublist_size s = Some [Val (word_of_int 32768)]"
    "heap s 0 = Some F"
    using run_wrap[of "Fld 1"] by blast
  have m: "cs_field_pointer_map_indexed 1 0 1 (Fld 2) s = Inl Out_of_bounds"
    using s(2,5)
    by (intro map_indexed_grow_negative[OF s(3,4), where w = "word_of_int 32768"
          and q = "Block 0" and b = 0 and v = Nullptr])
       (simp_all add: INT_MAX_def)
  have "run 1 [Map_indexed 0 32767 (Fld 1), Map_indexed 0 1 (Fld 2)] initial_state
      = ebind (run 1 [Map_indexed 0 32767 (Fld 1)] initial_state)
          (exec_op 1 (Map_indexed 0 1 (Fld 2)))"
    using run_snoc[of 1 "[Map_indexed 0 32767 (Fld 1)]" "Map_indexed 0 1 (Fld 2)" initial_state]
    by simp
  then show ?thesis
    using s(1) m by (simp add: ebind_def)
qed

subsection \<open>The size as the tag of the representation\<close>

text \<open>
  C9, as the code has it: in every initialised state that calls with indices below 32767
  reach from the state at program start, and for every slot \<open>e\<close>, the size is at most 1
  exactly when \<^verbatim>\<open>p\<close> addresses the slot's own member \<^verbatim>\<open>f\<close>, and when the size is
  above 1 the heap block that \<^verbatim>\<open>p\<close> addresses has exactly that many elements.
\<close>

theorem size_tags_representation:
  assumes "run N ops initial_state = Inr s" "list_all small_index ops"
    "field_pointer s \<noteq> None" "e < N"
  shows "\<exists>w. read_size s e = Inr w \<and>
     ((w \<le> 1) = (read_p s e = Inr (AddrF e))) \<and>
     (1 < w \<longrightarrow> (\<exists>b blk. read_p s e = Inr (Block b) \<and> heap s b = Some blk \<and>
                    int (length blk) = w))"
proof -
  from assms(1,2,3) have inv: "sinv N s" by (rule sinv_reachable)
  then obtain a z where ar: "field_pointer s = Some a" "sublist_size s = Some z"
    "length a = N" "length z = N" and tg: "\<forall>i<N. tagged s a z i"
    unfolding sinv_def winv_def by auto
  from tg assms(4) have "tagged s a z e" by simp
  then obtain q w where sl: "slot_p (a ! e) = Val q" "z ! e = Val w" "0 \<le> sint w"
    and q: "q = AddrF e \<and> sint w \<le> 1 \<or>
         (\<exists>b blk. q = Block b \<and> heap s b = Some blk \<and> 1 < sint w \<and>
            int (length blk) = sint w)"
    unfolding tagged_def by blast
  have rs: "read_size s e = Inr (sint w)" and rp: "read_p s e = Inr q"
    using ar sl assms(4) by (simp_all add: read_size_def read_p_def)
  from q show ?thesis
  proof
    assume "q = AddrF e \<and> sint w \<le> 1"
    with rs rp show ?thesis by simp
  next
    assume "\<exists>b blk. q = Block b \<and> heap s b = Some blk \<and> 1 < sint w \<and>
            int (length blk) = sint w"
    with rs rp show ?thesis by auto
  qed
qed

theorem size_tags_representation_witness:
  "\<exists>s b blk. run 2 [Map 0 (Fld 7), Map_indexed 1 2 (Fld 8)] initial_state = Inr s \<and>
     field_pointer s \<noteq> None \<and>
     read_size s 0 = Inr 1 \<and> read_p s 0 = Inr (AddrF 0) \<and>
     read_size s 1 = Inr 3 \<and> read_p s 1 = Inr (Block b) \<and> heap s b = Some blk \<and>
     length blk = 3"
proof -
  obtain s where s: "run 2 [Map 0 (Fld 7), Map_indexed 1 2 (Fld 8)] initial_state = Inr s"
    "field_pointer s \<noteq> None" "read_size s 0 = Inr 1" "read_size s 1 = Inr 3"
    by (simp add: exec_defs)
  have sm: "list_all small_index [Map 0 (Fld 7), Map_indexed 1 2 (Fld 8)]"
    by (simp add: SHRT_MAX_def)
  have e: "(0::nat) < 2" "(1::nat) < 2" by simp_all
  from size_tags_representation[OF s(1) sm s(2) e(1)] s(3)
  have "read_p s 0 = Inr (AddrF 0)" by auto
  moreover from size_tags_representation[OF s(1) sm s(2) e(2)] s(4)
  obtain b blk where "read_p s 1 = Inr (Block b)" "heap s b = Some blk" "int (length blk) = 3"
    by auto
  ultimately show ?thesis using s by auto
qed

text \<open>
  C9, as the specification states it, for every reachable state, fails after a call with index 32767:
  the stored size is \<open>-32768\<close>, at most 1, while \<^verbatim>\<open>p\<close> addresses a heap block.
\<close>

theorem size_tags_representation_counterexample:
  "size_after 1 [Map_indexed 0 32767 (Fld 1)] 0 = Inr (- 32768) \<and>
   p_after 1 [Map_indexed 0 32767 (Fld 1)] 0 = Inr (Block 0)"
proof -
  obtain s F where s: "run 1 [Map_indexed 0 32767 (Fld 1)] initial_state = Inr s"
    "field_pointer s = Some [\<lparr>slot_f = Val Nullptr, slot_p = Val (Block 0)\<rparr>]"
    "sublist_size s = Some [Val (word_of_int 32768)]"
    using run_wrap[of "Fld 1"] by blast
  then show ?thesis
    by (simp add: size_after_def p_after_def ebind_def read_size_def read_p_def)
qed

subsection \<open>The member \<^verbatim>\<open>f\<close> of an expanded slot\<close>

lemma map_indexed_keeps_f:
  assumes "winv N s" "cs_field_pointer_map_indexed N e' index fp s = Inr s'"
    "index < SHRT_MAX" "e < N" "expanded s e"
  shows "read_f s' e = read_f s e \<and> expanded s' e"
proof -
  from assms(1) obtain a z where ar: "field_pointer s = Some a" "sublist_size s = Some z"
    "length a = N" "length z = N" and wf: "\<forall>i<N. wf_slot s a z i"
    and np: "n_pointers s = int N"
    unfolding winv_def by blast
  from wf assms(4) have we: "wf_slot s a z e" by simp
  then obtain we' where we': "z ! e = Val we'"
    unfolding wf_slot_def by blast
  have big: "1 < sint we'"
    using assms(5) ar we' assms(4) by (simp add: expanded_def read_size_def)
  have blk: "slot_p (a ! e) \<noteq> Val (AddrF e)"
    using we we' big unfolding wf_slot_def by auto
  have sm: "sint (word_of_int (index + 1) :: 16 word) = index + 1" if "0 \<le> index"
    using that assms(3) by (intro sint_short_small) (simp_all add: SHRT_MAX_def)
  from ar np wf assms(2) show ?thesis
  proof (cases rule: map_indexed_shape)
    case (direct v q w)
    have "e' \<noteq> e" using direct(3,5) we' big by auto
    then show ?thesis
      using direct(6) ar assms(4,5) by (simp add: read_f_def expanded_def read_size_def)
  next
    case (grow_inline v w)
    have "e' \<noteq> e" using grow_inline(2) blk by auto
    then show ?thesis
      using grow_inline(8) ar assms(4,5) by (simp add: read_f_def expanded_def read_size_def)
  next
    case (grow_block v w b blk)
    show ?thesis
    proof (cases "e' = e")
      case True
      have "1 < index + 1"
        using grow_block(3,6) we' big True by simp
      then show ?thesis
        using True grow_block(4,10) ar assms(4) sm
        by (simp add: read_f_def expanded_def read_size_def)
    next
      case False
      then show ?thesis
        using grow_block(10) ar assms(4,5) by (simp add: read_f_def expanded_def read_size_def)
    qed
  next
    case (overwrite v w b blk)
    then show ?thesis
      using assms(5) by (simp add: read_f_def expanded_def read_size_def)
  qed
qed

lemma run_keeps_f:
  assumes "winv N s" "run N ops s = Inr s'" "list_all small_index ops"
    "list_all no_destroy ops" "e < N" "expanded s e"
  shows "read_f s' e = read_f s e \<and> expanded s' e"
  using assms
proof (induction ops arbitrary: s)
  case Nil
  then show ?case by simp
next
  case (Cons x xs)
  from Cons.prems(2) obtain s1 where s1: "exec_op N x s = Inr s1" "run N xs s1 = Inr s'"
    by (auto split: sum.splits)
  from Cons.prems(3,4) have x: "small_index x" "no_destroy x"
    and xs: "list_all small_index xs" "list_all no_destroy xs"
    by simp_all
  from Cons.prems(1) s1(1) x(2)
  have step: "winv N s1 \<and> read_f s1 e = read_f s e \<and> expanded s1 e"
  proof (cases rule: exec_op_initialised)
    case same
    with Cons.prems(1,6) show ?thesis by simp
  next
    case (mapped e' index fp)
    with x(1) have small: "index < SHRT_MAX" by simp
    from Cons.prems(1) mapped(1) have "winv N s1" by (rule winv_map_indexed)
    with map_indexed_keeps_f[OF Cons.prems(1) mapped(1) small Cons.prems(5,6)]
    show ?thesis by simp
  qed
  then have "read_f s' e = read_f s1 e \<and> expanded s' e"
    using s1(2) xs Cons.prems(5) by (intro Cons.IH) simp_all
  with step show ?case by simp
qed

text \<open>
  C10, as the code has it: let slot \<open>e\<close> be expanded (its size is above 1) in a state
  that a sequence of calls reaches from the state at program start. Calls of
  \<^verbatim>\<open>cs_field_pointer_ensure_init\<close>, \<^verbatim>\<open>cs_field_pointer_map\<close> and
  \<^verbatim>\<open>cs_field_pointer_map_indexed\<close> with indices below 32767, on any slots, leave the member
  \<^verbatim>\<open>f\<close> of slot \<open>e\<close> as it is, and the slot stays expanded. In particular
  \<^verbatim>\<open>cs_field_pointer_map_indexed(e, 0, h)\<close> on the expanded slot returns and changes
  nothing but position 0 of the block that \<^verbatim>\<open>p\<close> addresses.
\<close>

theorem expanded_slot_keeps_f:
  assumes "run N ops1 initial_state = Inr s" "e < N" "expanded s e"
    "run N ops2 s = Inr s'" "list_all small_index ops2" "list_all no_destroy ops2"
  shows "read_f s' e = read_f s e \<and> expanded s' e \<and>
     (\<exists>b blk. read_p s e = Inr (Block b) \<and> heap s b = Some blk \<and>
        cs_field_pointer_map_indexed N e 0 h s =
          Inr (s\<lparr>heap := (heap s)(b \<mapsto> blk[0 := Val h])\<rparr>))"
proof -
  from assms(3) have "sublist_size s \<noteq> None"
    by (auto simp: expanded_def read_size_def split: option.splits)
  with down_reachable(1)[OF assms(1)] have "field_pointer s \<noteq> None"
    by blast
  with assms(1) have w: "winv N s" by (rule winv_reachable)
  from w assms(4,5,6,2,3) have "read_f s' e = read_f s e \<and> expanded s' e"
    by (rule run_keeps_f)
  moreover from map_expanded_winv[OF w assms(2,3), of h]
  have "\<exists>b blk. read_p s e = Inr (Block b) \<and> heap s b = Some blk \<and>
        cs_field_pointer_map_indexed N e 0 h s =
          Inr (s\<lparr>heap := (heap s)(b \<mapsto> blk[0 := Val h])\<rparr>)"
    by auto
  ultimately show ?thesis by simp
qed

theorem expanded_slot_keeps_f_witness:
  "\<exists>s s' b blk. run 2 [Map 1 (Fld 7), Map_indexed 1 2 (Fld 8)] initial_state = Inr s \<and>
     expanded s 1 \<and> read_f s 1 = Inr (Fld 7) \<and>
     run 2 [Map 1 (Fld 9), Map_indexed 1 4 (Fld 6), Map_indexed 1 0 (Fld 5), Map 0 (Fld 4)] s
       = Inr s' \<and>
     read_f s' 1 = Inr (Fld 7) \<and> expanded s' 1 \<and>
     read_p s 1 = Inr (Block b) \<and> heap s b = Some blk \<and>
     cs_field_pointer_map_indexed 2 1 0 (Fld 3) s =
       Inr (s\<lparr>heap := (heap s)(b \<mapsto> blk[0 := Val (Fld 3)])\<rparr>)"
proof -
  obtain s s' where s: "run 2 [Map 1 (Fld 7), Map_indexed 1 2 (Fld 8)] initial_state = Inr s"
    "expanded s 1" "read_f s 1 = Inr (Fld 7)"
    and s': "run 2 [Map 1 (Fld 9), Map_indexed 1 4 (Fld 6), Map_indexed 1 0 (Fld 5),
       Map 0 (Fld 4)] s = Inr s'"
    by (simp add: exec_defs expanded_def)
  have ok: "list_all small_index [Map 1 (Fld 9), Map_indexed 1 4 (Fld 6),
       Map_indexed 1 0 (Fld 5), Map 0 (Fld 4)]"
    "list_all no_destroy [Map 1 (Fld 9), Map_indexed 1 4 (Fld 6),
       Map_indexed 1 0 (Fld 5), Map 0 (Fld 4)]"
    by (simp_all add: SHRT_MAX_def)
  have e: "(1::nat) < 2" by simp
  from expanded_slot_keeps_f[OF s(1) e s(2) s'(1) ok, of "Fld 3"] s s'
  show ?thesis by auto
qed

text \<open>
  C10, as the specification states it, for every later call, fails after a call with index 32767: slot 0
  is expanded by \<^verbatim>\<open>map_indexed(0, 1, 1)\<close> with its member \<^verbatim>\<open>f\<close> null;
  \<^verbatim>\<open>map_indexed(0, 32767, 2)\<close> stores the size \<open>-32768\<close>, and \<^verbatim>\<open>map(0, 3)\<close> then writes
  the member \<^verbatim>\<open>f\<close>.
\<close>

theorem expanded_slot_keeps_f_counterexample:
  "size_after 1 [Map_indexed 0 1 (Fld 1)] 0 = Inr 2 \<and>
   f_after 1 [Map_indexed 0 1 (Fld 1)] 0 = Inr Nullptr \<and>
   f_after 1 [Map_indexed 0 1 (Fld 1), Map_indexed 0 32767 (Fld 2), Map 0 (Fld 3)] 0
     = Inr (Fld 3)"
proof -
  obtain s blk where s: "run 1 [Map_indexed 0 1 (Fld 1)] initial_state = Inr s"
    "field_pointer s = Some [\<lparr>slot_f = Val Nullptr, slot_p = Val (Block 0)\<rparr>]"
    "sublist_size s = Some [Val 2]" "n_pointers s = 1"
    "heap s 0 = Some blk"
    by (simp add: exec_defs)
  let ?s1 = "s\<lparr>sublist_size := Some ([Val 2][0 := Val (word_of_int (32767 + 1))]),
           heap := (heap s)(0 \<mapsto>
              (grown_block (realloc_cells blk (32767 + 1)) Nullptr
                 (sint (2 :: 16 word)) 32767)
                [nat 32767 := Val (Fld 2)])\<rparr>"
  have g: "cs_field_pointer_map_indexed 1 0 32767 (Fld 2) s = Inr ?s1"
    using s(4,5) by (intro map_indexed_grow_block[OF s(2,3)]) (simp_all add: INT_MAX_def)
  let ?a = "[\<lparr>slot_f = Val Nullptr, slot_p = Val (Block 0)\<rparr>]"
  let ?s2 = "?s1\<lparr>field_pointer := Some (?a[0 := (?a ! 0)\<lparr>slot_f := Val (Fld 3)\<rparr>]),
           sublist_size := Some ([Val (word_of_int 32768)][0 := Val 1])\<rparr>"
  have f1: "field_pointer ?s1 = Some ?a" "sublist_size ?s1 = Some [Val (word_of_int 32768)]"
    using s(2) by simp_all
  have m: "cs_field_pointer_map_indexed 1 0 0 (Fld 3) ?s1 = Inr ?s2"
    using s(4) by (intro map_indexed_direct[OF f1, where w = "word_of_int 32768"]) simp_all
  have "run 1 [Map_indexed 0 1 (Fld 1), Map_indexed 0 32767 (Fld 2), Map 0 (Fld 3)] initial_state
      = ebind (run 1 [Map_indexed 0 1 (Fld 1)] initial_state)
          (run 1 [Map_indexed 0 32767 (Fld 2), Map 0 (Fld 3)])"
    using run_append[of 1 "[Map_indexed 0 1 (Fld 1)]"
        "[Map_indexed 0 32767 (Fld 2), Map 0 (Fld 3)]" initial_state]
    by simp
  then have "run 1 [Map_indexed 0 1 (Fld 1), Map_indexed 0 32767 (Fld 2), Map 0 (Fld 3)]
      initial_state = Inr ?s2"
    using s(1) g m by (simp add: ebind_def cs_field_pointer_map_def)
  then have "f_after 1 [Map_indexed 0 1 (Fld 1), Map_indexed 0 32767 (Fld 2), Map 0 (Fld 3)] 0
     = Inr (Fld 3)"
    by (simp add: f_after_def ebind_def read_f_def)
  moreover have "size_after 1 [Map_indexed 0 1 (Fld 1)] 0 = Inr 2"
    "f_after 1 [Map_indexed 0 1 (Fld 1)] 0 = Inr Nullptr"
    using s by (simp_all add: size_after_def f_after_def ebind_def read_size_def read_f_def)
  ultimately show ?thesis by simp
qed

end
